theory Spec2Isabelle
  imports Main "HOL-Library.AList" "HOL-Library.Sublist"
begin

section \<open>Strings\<close>

text \<open>
  A JavaScript string is a sequence of UTF-16 code units.  It is modelled as a
  \<^typ>\<open>string\<close> whose characters are the code units \<open>U+0000\<close> to \<open>U+00FF\<close>, so \<open>CHR 0xA0\<close> is
  the no-break space; a string with a code unit above \<open>U+00FF\<close> has no counterpart here.

  \<open>isSpace\<close> is the class \<open>\s\<close> of regular expressions in this range, which is also what
  \<open>String.prototype.trim\<close> strips: tab, line feed, vertical tab, form feed, carriage
  return, space and no-break space.

  \<open>toLowerCase\<close> maps \<open>A\<close> to \<open>Z\<close> and the capital letters \<open>U+00C0\<close> to \<open>U+00DE\<close> (all but the
  multiplication sign \<open>U+00D7\<close>) to the code unit 32 places further on, and keeps every
  other code unit.
\<close>

definition isSpace :: "char \<Rightarrow> bool" where
  "isSpace c = (c = CHR 0x09 \<or> c = CHR 0x0A \<or> c = CHR 0x0B \<or> c = CHR 0x0C
                \<or> c = CHR 0x0D \<or> c = CHR 0x20 \<or> c = CHR 0xA0)"

definition upperLetters :: string where
  "upperLetters = ''ABCDEFGHIJKLMNOPQRSTUVWXYZ'' @
     [CHR 0xC0, CHR 0xC1, CHR 0xC2, CHR 0xC3, CHR 0xC4, CHR 0xC5, CHR 0xC6, CHR 0xC7,
      CHR 0xC8, CHR 0xC9, CHR 0xCA, CHR 0xCB, CHR 0xCC, CHR 0xCD, CHR 0xCE, CHR 0xCF,
      CHR 0xD0, CHR 0xD1, CHR 0xD2, CHR 0xD3, CHR 0xD4, CHR 0xD5, CHR 0xD6,
      CHR 0xD8, CHR 0xD9, CHR 0xDA, CHR 0xDB, CHR 0xDC, CHR 0xDD, CHR 0xDE]"

definition lowerLetters :: string where
  "lowerLetters = ''abcdefghijklmnopqrstuvwxyz'' @
     [CHR 0xE0, CHR 0xE1, CHR 0xE2, CHR 0xE3, CHR 0xE4, CHR 0xE5, CHR 0xE6, CHR 0xE7,
      CHR 0xE8, CHR 0xE9, CHR 0xEA, CHR 0xEB, CHR 0xEC, CHR 0xED, CHR 0xEE, CHR 0xEF,
      CHR 0xF0, CHR 0xF1, CHR 0xF2, CHR 0xF3, CHR 0xF4, CHR 0xF5, CHR 0xF6,
      CHR 0xF8, CHR 0xF9, CHR 0xFA, CHR 0xFB, CHR 0xFC, CHR 0xFD, CHR 0xFE]"

definition lowerChar :: "char \<Rightarrow> char" where
  "lowerChar c =
     (case map_of (zip upperLetters lowerLetters) c of
        Some d \<Rightarrow> d
      | None \<Rightarrow> c)"

definition toLowerCase :: "string \<Rightarrow> string" where
  "toLowerCase s = map lowerChar s"

definition trim :: "string \<Rightarrow> string" where
  "trim s = rev (dropWhile isSpace (rev (dropWhile isSpace s)))"

fun startsWith :: "string \<Rightarrow> string \<Rightarrow> bool" where
  "startsWith s [] = True"
| "startsWith [] (c # t) = False"
| "startsWith (d # s) (c # t) = (d = c \<and> startsWith s t)"

fun includes_str :: "string \<Rightarrow> string \<Rightarrow> bool" where
  "includes_str [] t = (t = [])"
| "includes_str (c # s) t = (startsWith (c # s) t \<or> includes_str s t)"

section \<open>Values of the parsed input\<close>

text \<open>
  The generator reads its input with \<open>JSON.parse\<close>. \<open>jsval\<close> is the type of the values
  this produces, together with \<open>undefined\<close>, which the property reads of the script
  yield for a missing property. An object is the list of its properties.  Only the
  truthiness of a number is ever inspected, so a number is an integer here.
\<close>

datatype jsval =
    Undefined
  | Null
  | Bool bool
  | Num int
  | Str string
  | Arr "jsval list"
  | Obj "(string \<times> jsval) list"

datatype error = TypeError | InvalidStructure | SyntaxError

fun truthy :: "jsval \<Rightarrow> bool" where
  "truthy Undefined = False"
| "truthy Null = False"
| "truthy (Bool b) = b"
| "truthy (Num n) = (n \<noteq> 0)"
| "truthy (Str s) = (s \<noteq> [])"
| "truthy (Arr xs) = True"
| "truthy (Obj kvs) = True"

text \<open>\<open>a || b\<close>\<close>

definition orElse :: "jsval \<Rightarrow> jsval \<Rightarrow> jsval" where
  "orElse a b = (if truthy a then a else b)"

text \<open>
  \<open>v.k\<close> for a value \<open>v\<close> that is neither \<open>null\<close> nor \<open>undefined\<close>, and a property name
  \<open>k\<close> that no prototype defines (all the names the script reads are of this kind):
  an object yields its property, every other value \<open>undefined\<close>.
\<close>

fun getProp :: "jsval \<Rightarrow> string \<Rightarrow> jsval" where
  "getProp (Obj kvs) k = (case map_of kvs k of Some v \<Rightarrow> v | None \<Rightarrow> Undefined)"
| "getProp v k = Undefined"

text \<open>\<open>v.k\<close>: a \<open>TypeError\<close> on \<open>null\<close> and \<open>undefined\<close>.\<close>

fun strictProp :: "jsval \<Rightarrow> string \<Rightarrow> error + jsval" where
  "strictProp Undefined k = Inl TypeError"
| "strictProp Null k = Inl TypeError"
| "strictProp v k = Inr (getProp v k)"

text \<open>\<open>v?.k\<close>\<close>

fun optProp :: "jsval \<Rightarrow> string \<Rightarrow> jsval" where
  "optProp Undefined k = Undefined"
| "optProp Null k = Undefined"
| "optProp v k = getProp v k"

text \<open>
  \<open>v?.[0]\<close>: the first element of an array, the first character of a string, the
  property \<open>"0"\<close> of an object.
\<close>

fun optFirst :: "jsval \<Rightarrow> jsval" where
  "optFirst (Arr (x # xs)) = x"
| "optFirst (Str (c # s)) = Str [c]"
| "optFirst (Obj kvs) = getProp (Obj kvs) ''0''"
| "optFirst v = Undefined"

text \<open>A size of values under which every value read out of another is no larger.\<close>

fun jsize :: "jsval \<Rightarrow> nat" where
  "jsize (Arr xs) = Suc (sum_list (map jsize xs))"
| "jsize (Obj kvs) = Suc (sum_list (map (\<lambda>kv. jsize (snd kv)) kvs))"
| "jsize v = 1"

section \<open>The canonical tree\<close>

text \<open>
  The node the transform emits and the viewer reads.  The description is whatever
  truthy value the source record carries (a string in every real export).
\<close>

datatype node = Node (id_node: string) (id_display: string) (name: string)
  (description: jsval) (children: "node list")

section \<open>Transform stage\<close>

text \<open>\<open>id.replace(/[\s-]/g, '_')\<close>: every character of the class is replaced.\<close>

definition normalizeId :: "string \<Rightarrow> string" where
  "normalizeId s = map (\<lambda>c. if isSpace c \<or> c = CHR ''-'' then CHR ''_'' else c) s"

text \<open>\<open>Array.prototype.map\<close> with a callback that may throw: the first exception wins.\<close>

fun mapE :: "('a \<Rightarrow> error + 'b) \<Rightarrow> 'a list \<Rightarrow> error + 'b list" where
  "mapE f [] = Inr []"
| "mapE f (x # xs) =
     (case f x of Inl e \<Rightarrow> Inl e
      | Inr y \<Rightarrow> (case mapE f xs of Inl e \<Rightarrow> Inl e | Inr ys \<Rightarrow> Inr (y # ys)))"

lemma mapE_cong [fundef_cong]:
  "xs = ys \<Longrightarrow> (\<And>x. x \<in> set ys \<Longrightarrow> f x = g x) \<Longrightarrow> mapE f xs = mapE g ys"
  by (induction ys arbitrary: xs) (auto split: sum.splits)

lemma jsize_pos: "0 < jsize v"
  by (cases v) auto

lemma jsize_elem: "x \<in> set xs \<Longrightarrow> jsize x \<le> sum_list (map jsize xs)"
  by (induction xs) auto

lemma jsize_getProp: "jsize (getProp v k) \<le> jsize v"
proof (cases v)
  case (Obj kvs)
  have "map_of kvs k = Some w \<Longrightarrow> jsize w \<le> sum_list (map (\<lambda>kv. jsize (snd kv)) kvs)" for w
    by (induction kvs) (auto split: if_splits)
  then show ?thesis using Obj by (auto split: option.splits)
qed auto

lemma jsize_optProp: "jsize (optProp v k) \<le> jsize v"
  using jsize_getProp [of v k] by (cases v) auto

lemma jsize_optFirst: "jsize (optFirst v) \<le> jsize v"
proof (cases v)
  case (Arr xs)
  then show ?thesis by (cases xs) auto
next
  case (Str s)
  then show ?thesis by (cases s) auto
next
  case (Obj kvs)
  then show ?thesis using jsize_getProp [of "Obj kvs" "''0''"] by simp
qed auto

definition childItems :: "jsval \<Rightarrow> jsval" where
  "childItems item = orElse (optProp (optFirst (getProp item ''Children'')) ''Item'') (Arr [])"

lemma jsize_childItems: "jsize (childItems item) \<le> jsize item"
proof -
  have "jsize (optProp (optFirst (getProp item ''Children'')) ''Item'')
          \<le> jsize (optFirst (getProp item ''Children''))"
    by (rule jsize_optProp)
  also have "\<dots> \<le> jsize (getProp item ''Children'')"
    by (rule jsize_optFirst)
  also have "\<dots> \<le> jsize item"
    by (rule jsize_getProp)
  finally have "jsize (optProp (optFirst (getProp item ''Children'')) ''Item'') \<le> jsize item" .
  moreover have "jsize (Arr []) \<le> jsize item"
    using jsize_pos [of item] by simp
  ultimately show ?thesis by (simp add: childItems_def orElse_def)
qed

function transformItems :: "jsval \<Rightarrow> error + node list" where
  "transformItems items =
     (case items of
        Arr xs \<Rightarrow>
          mapE (\<lambda>item.
            if item = Null \<or> item = Undefined then Inl TypeError
            else
              let id = orElse (optFirst (getProp item ''ID'')) (Str '''');
                  name = orElse (optFirst (getProp item ''Name'')) (Str '''');
                  description = orElse (optFirst (getProp item ''Description'')) (Str '''');
                  children = childItems item
              in (case id of
                    Str i \<Rightarrow>
                      (case name of
                         Str n \<Rightarrow>
                           (case transformItems children of
                              Inl e \<Rightarrow> Inl e
                            | Inr cs \<Rightarrow>
                                Inr (Node (normalizeId i) i (trim n)
                                       (orElse description (Str (n @ '' classification item.'')))
                                       cs))
                       | _ \<Rightarrow> Inl TypeError)
                  | _ \<Rightarrow> Inl TypeError)) xs
      | _ \<Rightarrow> Inr [])"
  by pat_completeness auto
termination
proof (relation "measure jsize")
  show "wf (measure jsize)" by simp
next
  fix items :: jsval and xs item x xa xb xc x5 x5a
  assume "items = Arr xs" and "item \<in> set xs" and "xc = childItems item"
  then show "(xc, items) \<in> measure jsize"
    using jsize_childItems [of item] jsize_elem [of item xs] by simp
qed

declare transformItems.simps [simp del]

text \<open>
  \<open>sourceData.BuildingInformation?.Classification?.[0]?.System?.[0]\<close>: the first read is
  a plain one and throws on \<open>null\<close>; the rest of the chain yields \<open>undefined\<close> as soon
  as a link is missing.
\<close>

definition findSystem :: "jsval \<Rightarrow> error + jsval" where
  "findSystem sourceData =
     (case strictProp sourceData ''BuildingInformation'' of
        Inl e \<Rightarrow> Inl e
      | Inr bi \<Rightarrow> Inr (optFirst (optProp (optFirst (optProp bi ''Classification'')) ''System'')))"

record systemInfo =
  name_info :: jsval
  version_info :: jsval
  description_info :: jsval
  source_info :: jsval

definition transformData :: "jsval \<Rightarrow> error + (systemInfo \<times> node list)" where
  "transformData sourceData =
     (case findSystem sourceData of
        Inl e \<Rightarrow> Inl e
      | Inr system \<Rightarrow>
          if \<not> truthy system then Inl InvalidStructure
          else
            let info = \<lparr> name_info = orElse (optFirst (getProp system ''Name'')) (Str ''Unknown''),
                         version_info = orElse (optFirst (getProp system ''EditionVersion'')) (Str ''''),
                         description_info = orElse (optFirst (getProp system ''Description'')) (Str ''''),
                         source_info = orElse (optFirst (getProp system ''Source'')) (Str '''') \<rparr>;
                items = orElse (optProp (optFirst (getProp system ''Items'')) ''Item'') (Arr [])
            in (case transformItems items of
                  Inl e \<Rightarrow> Inl e
                | Inr treeData \<Rightarrow> Inr (info, treeData)))"

lemma size_children [termination_simp]:
  "x \<in> set items \<Longrightarrow> size_list size (children x) < size_list size items"
proof (induction items)
  case Nil
  then show ?case by simp
next
  case (Cons y ys)
  have "size_list size (children y) < size y" by (cases y) simp
  with Cons show ?case by auto
qed

text \<open>\<open>countItems\<close>: the length of the list plus the counts of the children lists.\<close>

fun countItems :: "node list \<Rightarrow> nat" where
  "countItems items = length items + sum_list (map (\<lambda>item. countItems (children item)) items)"

declare countItems.simps [simp del]

section \<open>Tree viewer: the lookup maps\<close>

text \<open>
  A JavaScript \<open>Map\<close> is the list of its entries in insertion order: \<open>set\<close> is
  \<^const>\<open>AList.update\<close> (an existing key keeps its place and takes the new value, a new
  key goes to the end), \<open>get\<close> and \<open>has\<close> are \<^const>\<open>map_of\<close>, \<open>size\<close> is the length.
\<close>

type_synonym nodeMap = "(string \<times> node) list"
type_synonym parentMap = "(string \<times> string) list"

function buildMaps :: "node list \<Rightarrow> node option \<Rightarrow> nodeMap \<times> parentMap \<Rightarrow> nodeMap \<times> parentMap" where
  "buildMaps nodes parent maps =
     fold (\<lambda>node m.
        let nm = AList.update (id_node node) node (fst m);
            pm = (case parent of
                    Some p \<Rightarrow> AList.update (id_node node) (id_node p) (snd m)
                  | None \<Rightarrow> snd m)
        in if children node \<noteq> [] then buildMaps (children node) (Some node) (nm, pm)
           else (nm, pm)) nodes maps"
  by pat_completeness auto
termination
  by (relation "measure (\<lambda>(nodes, parent, maps). size_list size nodes)")
     (auto simp: size_children)

declare buildMaps.simps [simp del]

text \<open>
  \<open>getPath\<close>: the loop runs while the parent map has an entry for \<open>current\<close>; a run that
  never leaves the loop has the value \<open>None\<close>.
\<close>

partial_function (option) getPathLoop :: "parentMap \<Rightarrow> string \<Rightarrow> string list \<Rightarrow> string list option" where
  "getPathLoop pm current path =
     (case map_of pm current of
        None \<Rightarrow> Some path
      | Some p \<Rightarrow> getPathLoop pm p (p # path))"

declare getPathLoop.simps [code]

definition getPath :: "parentMap \<Rightarrow> string \<Rightarrow> string list option" where
  "getPath pm nodeId = getPathLoop pm nodeId [nodeId]"

lemma size_child [termination_simp]:
  "x \<in> set (children node) \<Longrightarrow> size x < size node"
proof -
  assume "x \<in> set (children node)"
  then have "size x \<le> size_list size (children node)"
    by (induction "children node" arbitrary: node) (auto simp: size_list_estimation')
  moreover have "size_list size (children node) < size node" by (cases node) simp
  ultimately show ?thesis by simp
qed

fun countDescendants :: "node \<Rightarrow> nat" where
  "countDescendants node =
     (if children node = [] then 0
      else fold (\<lambda>child sum. sum + 1 + countDescendants child) (children node) 0)"

declare countDescendants.simps [simp del]

section \<open>Tree viewer: the rendered tree\<close>

text \<open>
  One \<open>.tree-node\<close> element per node.  \<open>nodeEl\<close> holds what the script reads and writes
  on the element itself: \<open>data-id\<close>, \<open>data-level\<close>, and the classes \<open>expanded\<close>,
  \<open>search-hidden\<close>, \<open>search-match\<close>, and \<open>selected\<close> (the last is carried by the
  element's \<open>.tree-node-content\<close> child; the toggle glyph repeats \<open>expanded\<close>).
  \<open>elem\<close> adds the child elements held by its \<open>.tree-children\<close> container.

  \<open>renderTree\<close> writes the display id and the name of a node into the element with
  \<open>innerHTML\<close>, unescaped.  When neither holds the character \<open><\<close> the browser makes text
  of them, and the elements of class \<open>tree-node\<close> and \<open>tree-node-content\<close> are those that
  \<open>renderTree\<close> creates, which is the document modelled here; the statements about the
  rendered tree of a forest carry this as the hypothesis \<open>plainLabels\<close>.
\<close>

record nodeEl =
  data_id :: string
  data_level :: nat
  expanded :: bool
  selected :: bool
  search_hidden :: bool
  search_match :: bool

datatype elem = Elem (el: nodeEl) (tree_children: "elem list")

lemma size_tree_children [termination_simp]:
  "x \<in> set es \<Longrightarrow> size_list size (tree_children x) < size_list size es"
proof (induction es)
  case Nil
  then show ?case by simp
next
  case (Cons y ys)
  have "size_list size (tree_children y) < size y" by (cases y) simp
  with Cons show ?case by auto
qed

fun renderTree :: "node list \<Rightarrow> nat \<Rightarrow> elem list" where
  "renderTree nodes level =
     map (\<lambda>node.
        Elem \<lparr> data_id = id_node node, data_level = level, expanded = False,
               selected = False, search_hidden = False, search_match = False \<rparr>
             (if children node \<noteq> [] then renderTree (children node) (level + 1) else []))
       nodes"

declare renderTree.simps [simp del]

text \<open>\<open>toggleNode(nodeEl, expand)\<close>, with \<open>None\<close> for the default \<open>expand = null\<close>.\<close>

definition toggleNode :: "bool option \<Rightarrow> nodeEl \<Rightarrow> nodeEl" where
  "toggleNode expand nodeEl =
     (let shouldExpand = (case expand of Some b \<Rightarrow> b | None \<Rightarrow> \<not> expanded nodeEl)
      in nodeEl\<lparr>expanded := shouldExpand\<rparr>)"

text \<open>
  \<open>document.querySelectorAll('.tree-node').forEach(f)\<close> for an \<open>f\<close> that changes the
  classes of the element it is given.
\<close>

fun forEachNode :: "(nodeEl \<Rightarrow> nodeEl) \<Rightarrow> elem list \<Rightarrow> elem list" where
  "forEachNode f es = map (\<lambda>e. Elem (f (el e)) (forEachNode f (tree_children e))) es"

declare forEachNode.simps [simp del]

text \<open>All elements in document order.\<close>

fun allElems :: "elem list \<Rightarrow> nodeEl list" where
  "allElems es = concat (map (\<lambda>e. el e # allElems (tree_children e)) es)"

declare allElems.simps [simp del]

text \<open>
  An element is addressed by the child positions on the way to it from the tree
  container.

  \<open>selectNode\<close> finds its element with
  \<open>document.querySelector('.tree-node[data-id="' + nodeId + '"]')\<close>.  What the text between
  the quotes means is decided by the selector engine of the browser, which is not part
  of the script, so it is a parameter here: \<open>css nodeId\<close> is \<open>None\<close> when the text is not a
  selector (then \<open>querySelector\<close> throws a \<open>SyntaxError\<close>), and otherwise the test that the
  selector puts on the \<open>data-id\<close> of an element.  For an id that has no double quote, no
  backslash, no line break and no NUL character, every engine tests for equality with
  the id.  \<open>querySelector\<close> yields the first element in document order that passes.
\<close>

type_synonym selectorEngine = "string \<Rightarrow> (string \<Rightarrow> bool) option"

fun findFrom :: "(string \<Rightarrow> bool) \<Rightarrow> nat \<Rightarrow> elem list \<Rightarrow> nat list option" where
  "findFrom test i [] = None"
| "findFrom test i (Elem x cs # es) =
     (if test (data_id x) then Some [i]
      else (case findFrom test 0 cs of
              Some p \<Rightarrow> Some (i # p)
            | None \<Rightarrow> findFrom test (Suc i) es))"

definition querySelector :: "selectorEngine \<Rightarrow> string \<Rightarrow> elem list \<Rightarrow> error + nat list option" where
  "querySelector css nodeId es =
     (case css nodeId of
        None \<Rightarrow> Inl SyntaxError
      | Some test \<Rightarrow> Inr (findFrom test 0 es))"

fun elemAt :: "nat list \<Rightarrow> elem list \<Rightarrow> nodeEl option" where
  "elemAt [] es = None"
| "elemAt [i] es = (if i < length es then Some (el (es ! i)) else None)"
| "elemAt (i # j # p) es = (if i < length es then elemAt (j # p) (tree_children (es ! i)) else None)"

fun updateAt :: "nat list \<Rightarrow> (nodeEl \<Rightarrow> nodeEl) \<Rightarrow> elem list \<Rightarrow> elem list" where
  "updateAt [] f es = es"
| "updateAt [i] f es =
     (if i < length es then es[i := Elem (f (el (es ! i))) (tree_children (es ! i))] else es)"
| "updateAt (i # j # p) f es =
     (if i < length es
      then es[i := Elem (el (es ! i)) (updateAt (j # p) f (tree_children (es ! i)))]
      else es)"

text \<open>
  The walk over \<open>parentElement\<close>: every \<open>.tree-node\<close> above the element at address \<open>p\<close>
  is expanded, nearest first.
\<close>

function expandParents :: "nat list \<Rightarrow> elem list \<Rightarrow> elem list" where
  "expandParents p es =
     (if length p \<le> 1 then es
      else expandParents (butlast p) (updateAt (butlast p) (toggleNode (Some True)) es))"
  by pat_completeness auto
termination
  by (relation "measure (\<lambda>(p, es). length p)") auto

declare expandParents.simps [simp del]

section \<open>Tree viewer: state and operations\<close>

text \<open>
  The detail pane as \<open>showDetail\<close> fills it: the code, name and description fields, the
  three statistics, the breadcrumb (one entry per path id, with the code shown), the
  hierarchy panel (per path id: whether it is the current one, the level label, code
  and name) and the children grid (per child: id, code, name and the count badge).
\<close>

record detail =
  detailCode :: string
  detailName :: string
  descriptionText :: jsval
  statChildren :: nat
  statDescendants :: nat
  statLevel :: nat
  breadcrumb :: "(string \<times> string) list"
  hierarchyPath :: "(string \<times> bool \<times> nat \<times> string \<times> string) list"
  childrenContainer :: "(string \<times> string \<times> string \<times> nat option) list"

record viewer =
  nodeMap :: nodeMap
  parentMap :: parentMap
  selectedNode :: "string option"
  dom :: "elem list"
  detailView :: "detail option"

text \<open>
  What \<open>showDetail\<close> writes into the pane for a node, its path and the nodes of the path.
\<close>

definition detailOf :: "string \<Rightarrow> node \<Rightarrow> string list \<Rightarrow> node list \<Rightarrow> detail" where
  "detailOf nodeId node path ns =
     \<lparr> detailCode = id_display node,
       detailName = name node,
       descriptionText = orElse (description node) (Str ''No description available.''),
       statChildren = length (children node),
       statDescendants = countDescendants node,
       statLevel = length path,
       breadcrumb = map (\<lambda>(pid, n). (pid, id_display n)) (zip path ns),
       hierarchyPath =
         map (\<lambda>(i, pid, n). (pid, pid = nodeId, i + 1, id_display n, name n))
           (zip [0..<length path] (zip path ns)),
       childrenContainer =
         map (\<lambda>child. (id_node child, id_display child, name child,
                if children child \<noteq> [] then Some (length (children child)) else None))
           (children node) \<rparr>"

text \<open>
  \<open>showDetail\<close> returns at once for an id that \<open>nodeMap\<close> does not have.  Reading
  \<open>n.id_display\<close> for a path id that \<open>nodeMap\<close> does not have is a \<open>TypeError\<close>; a
  \<open>getPath\<close> that does not return leaves \<open>showDetail\<close> without a result.
\<close>

definition showDetail :: "string \<Rightarrow> viewer \<Rightarrow> (error + viewer) option" where
  "showDetail nodeId v =
     (case map_of (nodeMap v) nodeId of
        None \<Rightarrow> Some (Inr v)
      | Some node \<Rightarrow>
          (case getPath (parentMap v) nodeId of
             None \<Rightarrow> None
           | Some path \<Rightarrow>
               (case those (map (map_of (nodeMap v)) path) of
                  None \<Rightarrow> Some (Inl TypeError)
                | Some ns \<Rightarrow> Some (Inr (v\<lparr>detailView := Some (detailOf nodeId node path ns)\<rparr>)))))"

text \<open>
  \<open>selectNode\<close>.  \<open>scrollIntoView\<close> changes nothing that is modelled.  An exception of
  \<open>querySelector\<close> leaves \<open>selectNode\<close> after the old selection has been cleared.
\<close>

definition selectNode :: "selectorEngine \<Rightarrow> string \<Rightarrow> viewer \<Rightarrow> (error + viewer) option" where
  "selectNode css nodeId v =
     (let cleared = forEachNode (\<lambda>e. e\<lparr>selected := False\<rparr>) (dom v)
      in (case querySelector css nodeId cleared of
            Inl e \<Rightarrow> Some (Inl e)
          | Inr nodeEl \<Rightarrow>
              (let marked = (case nodeEl of
                               Some p \<Rightarrow> expandParents p (updateAt p (\<lambda>e. e\<lparr>selected := True\<rparr>) cleared)
                             | None \<Rightarrow> cleared)
               in showDetail nodeId (v\<lparr>dom := marked, selectedNode := Some nodeId\<rparr>))))"

text \<open>The test \<open>search\<close> applies to a node, in both of its passes.\<close>

definition matchesTerm :: "string \<Rightarrow> node \<Rightarrow> bool" where
  "matchesTerm lowerTerm node =
     (includes_str (toLowerCase (id_display node)) lowerTerm
      \<or> includes_str (toLowerCase (name node)) lowerTerm)"

partial_function (option) addAncestors :: "parentMap \<Rightarrow> string \<Rightarrow> string set \<Rightarrow> string set option" where
  "addAncestors pm current matchingIds =
     (case map_of pm current of
        None \<Rightarrow> Some matchingIds
      | Some p \<Rightarrow> addAncestors pm p (insert p matchingIds))"

declare addAncestors.simps [code]

text \<open>\<open>nodeMap.forEach\<close> of the first pass, over the entries in insertion order.\<close>

fun collectMatches :: "parentMap \<Rightarrow> string \<Rightarrow> nodeMap \<Rightarrow> string set \<Rightarrow> string set option" where
  "collectMatches pm lowerTerm [] matchingIds = Some matchingIds"
| "collectMatches pm lowerTerm ((nid, node) # entries) matchingIds =
     (if matchesTerm lowerTerm node
      then (case addAncestors pm nid (insert nid matchingIds) of
              None \<Rightarrow> None
            | Some m \<Rightarrow> collectMatches pm lowerTerm entries m)
      else collectMatches pm lowerTerm entries matchingIds)"

text \<open>
  The second pass, on one element.  An element in \<open>matchingIds\<close> whose id \<open>nodeMap\<close> does
  not have makes the pass throw (\<open>search\<close> below); here it is left as it is.
\<close>

definition markElem :: "nodeMap \<Rightarrow> string \<Rightarrow> string set \<Rightarrow> nodeEl \<Rightarrow> nodeEl" where
  "markElem nm lowerTerm matchingIds nodeEl =
     (if data_id nodeEl \<notin> matchingIds then nodeEl\<lparr>search_hidden := True\<rparr>
      else (case map_of nm (data_id nodeEl) of
              None \<Rightarrow> nodeEl
            | Some node \<Rightarrow>
                if matchesTerm lowerTerm node
                then toggleNode (Some True) (nodeEl\<lparr>search_match := True\<rparr>)
                else nodeEl))"

text \<open>
  \<open>search\<close>.  The script creates no element of class \<open>highlight-text\<close>, and labels
  without markup bring none, so the loop over them does nothing.
\<close>

definition search :: "string \<Rightarrow> viewer \<Rightarrow> (error + viewer) option" where
  "search term v =
     (let lowerTerm = trim (toLowerCase term);
          cleared = forEachNode (\<lambda>e. e\<lparr>search_hidden := False, search_match := False\<rparr>) (dom v)
      in if lowerTerm = [] then Some (Inr (v\<lparr>dom := cleared\<rparr>))
         else (case collectMatches (parentMap v) lowerTerm (nodeMap v) {} of
                 None \<Rightarrow> None
               | Some matchingIds \<Rightarrow>
                   if list_ex (\<lambda>e. data_id e \<in> matchingIds \<and> map_of (nodeMap v) (data_id e) = None)
                        (allElems cleared)
                   then Some (Inl TypeError)
                   else Some (Inr (v\<lparr>dom := forEachNode (markElem (nodeMap v) lowerTerm matchingIds) cleared\<rparr>))))"

text \<open>The start of the embedded script: the maps are built and the tree is rendered.\<close>

definition initialize :: "node list \<Rightarrow> viewer" where
  "initialize treeData =
     (let maps = buildMaps treeData None ([], [])
      in \<lparr> nodeMap = fst maps, parentMap = snd maps, selectedNode = None,
           dom = renderTree treeData 0, detailView = None \<rparr>)"

section \<open>Notions used in the statements\<close>

text \<open>The callback that \<open>transformItems\<close> maps over the items, as a function of its own.\<close>

definition transformItem :: "jsval \<Rightarrow> error + node" where
  "transformItem item =
     (if item = Null \<or> item = Undefined then Inl TypeError
      else
        (case orElse (optFirst (getProp item ''ID'')) (Str '''') of
           Str i \<Rightarrow>
             (case orElse (optFirst (getProp item ''Name'')) (Str '''') of
                Str n \<Rightarrow>
                  (case transformItems (childItems item) of
                     Inl e \<Rightarrow> Inl e
                   | Inr cs \<Rightarrow>
                       Inr (Node (normalizeId i) i (trim n)
                              (orElse (orElse (optFirst (getProp item ''Description'')) (Str ''''))
                                 (Str (n @ '' classification item.'')))
                              cs))
              | _ \<Rightarrow> Inl TypeError)
         | _ \<Rightarrow> Inl TypeError))"

text \<open>
  The normalisation as the specification words it: every maximal run of white space and
  hyphens becomes one underscore.
\<close>

definition isSeparator :: "char \<Rightarrow> bool" where
  "isSeparator c = (isSpace c \<or> c = CHR ''-'')"

function collapseSeparators :: "string \<Rightarrow> string" where
  "collapseSeparators [] = []"
| "collapseSeparators (c # s) =
     (if isSeparator c then CHR ''_'' # collapseSeparators (dropWhile isSeparator s)
      else c # collapseSeparators s)"
  by pat_completeness auto
termination
  by (relation "measure length") (auto simp: less_Suc_eq_le length_dropWhile_le)

text \<open>
  The items of a located system (\<open>system.Items?.[0]?.Item || []\<close>), and the inputs on
  which the callback of \<open>transformItems\<close> does not throw: no item is \<open>null\<close>, and what
  the callback takes for \<open>ID\<close> and \<open>Name\<close> is a string or falsy (a missing field is).
\<close>

definition systemItems :: "jsval \<Rightarrow> jsval" where
  "systemItems system = orElse (optProp (optFirst (getProp system ''Items'')) ''Item'') (Arr [])"

definition strOrFalsy :: "jsval \<Rightarrow> bool" where
  "strOrFalsy v = (case v of Str s \<Rightarrow> True | _ \<Rightarrow> \<not> truthy v)"

function wellFormedItems :: "jsval \<Rightarrow> bool" where
  "wellFormedItems items =
     (case items of
        Arr xs \<Rightarrow>
          list_all (\<lambda>item.
             item \<noteq> Null \<and> item \<noteq> Undefined
             \<and> strOrFalsy (optFirst (getProp item ''ID''))
             \<and> strOrFalsy (optFirst (getProp item ''Name''))
             \<and> wellFormedItems (childItems item)) xs
      | _ \<Rightarrow> True)"
  by pat_completeness auto
termination
proof (relation "measure jsize")
  show "wf (measure jsize)" by simp
next
  fix items :: jsval and xs item
  assume "items = Arr xs" and "item \<in> set xs"
  then show "(childItems item, items) \<in> measure jsize"
    using jsize_childItems [of item] jsize_elem [of item xs] by simp
qed

declare wellFormedItems.simps [simp del]

text \<open>Two inputs: a system with one item that has no field, and one whose item has a number as \<open>ID\<close>.\<close>

definition system_ok :: jsval where
  "system_ok = Obj [(''Items'', Arr [Obj [(''Item'', Arr [Obj []])]])]"

definition source_ok :: jsval where
  "source_ok = Obj [(''BuildingInformation'', Obj [(''Classification'',
      Arr [Obj [(''System'', Arr [system_ok])]])])]"

definition system_bad :: jsval where
  "system_bad = Obj [(''Items'', Arr [Obj [(''Item'', Arr [Obj [(''ID'', Arr [Num 5])]])]])]"

definition source_bad :: jsval where
  "source_bad = Obj [(''BuildingInformation'', Obj [(''Classification'',
      Arr [Obj [(''System'', Arr [system_bad])]])])]"

text \<open>
  The nodes of a forest in the order of a depth-first traversal, each with the list of
  its ancestors, the root first.  A node with \<open>k\<close> ancestors is at depth \<open>k + 1\<close>.
\<close>

lemma size_node_children: "size_list size (children n) < size n"
  by (cases n) simp

function ancestry :: "node list \<Rightarrow> node list \<Rightarrow> (node list \<times> node) list" where
  "ancestry anc [] = []"
| "ancestry anc (n # ns) = (anc, n) # ancestry (anc @ [n]) (children n) @ ancestry anc ns"
  by pat_completeness auto
termination
proof (relation "measure (\<lambda>(anc, nodes). size_list size nodes)")
  fix anc :: "node list" and n ns
  show "((anc @ [n], children n), (anc, n # ns)) \<in> measure (\<lambda>(anc, nodes). size_list size nodes)"
    using size_node_children [of n] by simp
qed simp_all

definition allNodes :: "node list \<Rightarrow> node list" where
  "allNodes forest = map snd (ancestry [] forest)"

definition descendants :: "node \<Rightarrow> node list" where
  "descendants n = allNodes (children n)"

definition uniqueIds :: "node list \<Rightarrow> bool" where
  "uniqueIds forest = distinct (map id_node (allNodes forest))"

text \<open>
  The entries that a traversal registers: one \<open>(id, node)\<close> per node, and one
  \<open>(id, parent id)\<close> per node that has a parent.  \<open>putAll\<close> stores a list of entries, in
  order.
\<close>

definition entriesOf :: "(node list \<times> node) list \<Rightarrow> nodeMap" where
  "entriesOf xs = map (\<lambda>(a, n). (id_node n, n)) xs"

definition edgesOf :: "(node list \<times> node) list \<Rightarrow> parentMap" where
  "edgesOf xs = map (\<lambda>(a, n). (id_node n, id_node (last a))) (filter (\<lambda>(a, n). a \<noteq> []) xs)"

definition putAll :: "('k \<times> 'v) list \<Rightarrow> ('k \<times> 'v) list \<Rightarrow> ('k \<times> 'v) list" where
  "putAll kvs al = fold (\<lambda>kv. AList.update (fst kv) (snd kv)) kvs al"

text \<open>A viewer whose maps are the ones \<open>buildMaps\<close> makes from the forest.\<close>

definition indexed :: "node list \<Rightarrow> viewer \<Rightarrow> bool" where
  "indexed forest v =
     (nodeMap v = fst (buildMaps forest None ([], []))
      \<and> parentMap v = snd (buildMaps forest None ([], [])))"

text \<open>No node has the id of one of its ancestors.\<close>

definition noAncestorClash :: "node list \<Rightarrow> bool" where
  "noAncestorClash forest =
     list_all (\<lambda>(a, n). id_node n \<notin> set (map id_node a)) (ancestry [] forest)"

text \<open>
  Two forests: one where the id \<open>X\<close> occurs below \<open>B\<close> and \<open>B\<close> below \<open>X\<close>, in different
  trees, and the forest \<open>A \<rightarrow> [A1 \<rightarrow> [A1a], A2]\<close>.
\<close>

definition forest_cycle :: "node list" where
  "forest_cycle =
     [Node ''A'' ''A'' ''a'' (Str ''d'')
        [Node ''X'' ''X'' ''x'' (Str ''d'') [Node ''B'' ''B'' ''b'' (Str ''d'') []]],
      Node ''B'' ''B'' ''b2'' (Str ''d'') [Node ''X'' ''X'' ''x2'' (Str ''d'') []]]"

definition node_A1a :: node where
  "node_A1a = Node ''A1a'' ''A1a'' ''Gamma'' (Str ''d'') []"

definition node_A1 :: node where
  "node_A1 = Node ''A1'' ''A1'' ''Beta'' (Str ''d'') [node_A1a]"

definition node_A2 :: node where
  "node_A2 = Node ''A2'' ''A2'' ''Delta'' (Str ''d'') []"

definition node_A :: node where
  "node_A = Node ''A'' ''A'' ''Alpha'' (Str ''d'') [node_A1, node_A2]"

definition forest_a :: "node list" where
  "forest_a = [node_A]"

lemmas forest_a_defs = forest_a_def node_A_def node_A1_def node_A2_def node_A1a_def

text \<open>
  The source items at every depth, in the order of a depth-first traversal: the items
  of the list, each followed by the items below it (\<open>item.Children?.[0]?.Item || []\<close>).
  \<open>allNodes\<close> further down lists the nodes of a forest in the same order.
\<close>

function allItems :: "jsval \<Rightarrow> jsval list" where
  "allItems items =
     (case items of
        Arr xs \<Rightarrow> concat (map (\<lambda>item. item # allItems (childItems item)) xs)
      | _ \<Rightarrow> [])"
  by pat_completeness auto
termination
proof (relation "measure jsize")
  show "wf (measure jsize)" by simp
next
  fix items :: jsval and xs item
  assume "items = Arr xs" and "item \<in> set xs"
  then show "(childItems item, items) \<in> measure jsize"
    using jsize_childItems [of item] jsize_elem [of item xs] by simp
qed

declare allItems.simps [simp del]

text \<open>
  An input with a nested item: the \<open>ID\<close> \<open>a - b\<close> at the top, and below it an item whose
  \<open>ID\<close> has a no-break space.
\<close>

definition items_nested :: jsval where
  "items_nested =
     Arr [Obj [(''ID'', Arr [Str ''a - b'']),
               (''Children'', Arr [Obj [(''Item'',
                  Arr [Obj [(''ID'', Arr [Str [CHR ''c'', CHR 0xA0, CHR ''d'']])]])]])]]"

definition nodes_nested :: "node list" where
  "nodes_nested =
     [Node ''a___b'' ''a - b'' '''' (Str '' classification item.'')
        [Node ''c_d'' [CHR ''c'', CHR 0xA0, CHR ''d''] '''' (Str '' classification item.'') []]]"

definition source_nested :: jsval where
  "source_nested = Obj [(''BuildingInformation'', Obj [(''Classification'',
      Arr [Obj [(''System'', Arr [Obj [(''Items'', Arr [Obj [(''Item'', items_nested)]])]])]])])]"

definition info_default :: systemInfo where
  "info_default = \<lparr> name_info = Str ''Unknown'', version_info = Str '''',
                     description_info = Str '''', source_info = Str '''' \<rparr>"

text \<open>The number of ancestors of the node with a given id (0 for an id of no node).\<close>

definition depthOf :: "node list \<Rightarrow> string \<Rightarrow> nat" where
  "depthOf forest k =
     (case map_of (map (\<lambda>(a, n). (id_node n, length a)) (ancestry [] forest)) k of
        Some d \<Rightarrow> d
      | None \<Rightarrow> 0)"

text \<open>
  A rendered tree is the tree that \<open>renderTree\<close> makes of the forest, up to the classes
  that the operations set and remove.  \<open>viewOf forest v\<close>: the viewer has the maps and a
  rendered tree of the forest.  \<open>clearSearch\<close> is the first loop of \<open>search\<close> on one
  element.
\<close>

definition unflag :: "nodeEl \<Rightarrow> nodeEl" where
  "unflag e = e\<lparr>expanded := False, selected := False, search_hidden := False, search_match := False\<rparr>"

definition rendered :: "node list \<Rightarrow> elem list \<Rightarrow> bool" where
  "rendered forest es = (forEachNode unflag es = renderTree forest 0)"

definition viewOf :: "node list \<Rightarrow> viewer \<Rightarrow> bool" where
  "viewOf forest v = (indexed forest v \<and> rendered forest (dom v))"

definition clearSearch :: "nodeEl \<Rightarrow> nodeEl" where
  "clearSearch e = e\<lparr>search_hidden := False, search_match := False\<rparr>"

text \<open>
  A node is kept by a search when it matches or one of its descendants does.
  \<open>matchSet\<close> is the set of ids that the first pass of \<open>search\<close> collects from a list of
  nodes with their ancestors: the id of every matching node and the ids of its ancestors.
\<close>

definition visibleNode :: "string \<Rightarrow> node \<Rightarrow> bool" where
  "visibleNode lowerTerm n =
     (matchesTerm lowerTerm n \<or> (\<exists>d\<in>set (descendants n). matchesTerm lowerTerm d))"

definition matchSet :: "string \<Rightarrow> (node list \<times> node) list \<Rightarrow> string set" where
  "matchSet t xs = {k. \<exists>(a, n)\<in>set xs. matchesTerm t n \<and> (k = id_node n \<or> k \<in> id_node ` set a)}"

text \<open>
  A forest in which the id \<open>X\<close> occurs twice, below different roots.  \<open>shown\<close> reads
  off a result the recorded selection and, per element in document order, its id and
  whether it is expanded, selected, hidden by the search and marked as a match;
  \<open>andThen\<close> runs an operation on the viewer that another one returned.
\<close>

definition forest_dup :: "node list" where
  "forest_dup =
     [Node ''A'' ''A'' ''first'' (Str ''d'') [Node ''X'' ''X'' ''foo'' (Str ''d'') []],
      Node ''B'' ''B'' ''second'' (Str ''d'') [Node ''X'' ''X'' ''bar'' (Str ''d'') []]]"

definition shown :: "(error + viewer) option \<Rightarrow> (error + string option \<times> (string \<times> bool \<times> bool \<times> bool \<times> bool) list) option" where
  "shown r =
     map_option (map_sum (\<lambda>e. e)
       (\<lambda>v. (selectedNode v,
             map (\<lambda>e. (data_id e, expanded e, selected e, search_hidden e, search_match e))
               (allElems (dom v))))) r"

definition andThen :: "(error + viewer) option \<Rightarrow> (viewer \<Rightarrow> (error + viewer) option) \<Rightarrow> (error + viewer) option" where
  "andThen r f = (case r of Some (Inr v) \<Rightarrow> f v | _ \<Rightarrow> r)"

text \<open>
  A selector engine that tests for equality with the id whenever the id has no double
  quote, backslash, line feed, form feed, carriage return or NUL, as every browser does;
  it rejects the other ids (a browser rejects some of them and reads the others as
  escapes).  \<open>unselect\<close> is the first loop of \<open>selectNode\<close> on one element.
\<close>

definition plainEngine :: selectorEngine where
  "plainEngine nodeId =
     (if list_ex (\<lambda>c. c \<in> set [CHR 0x22, CHR 0x5C, CHR 0x0A, CHR 0x0C, CHR 0x0D, CHR 0x00]) nodeId
      then None
      else Some (\<lambda>d. d = nodeId))"

definition unselect :: "nodeEl \<Rightarrow> nodeEl" where
  "unselect e = e\<lparr>selected := False\<rparr>"

text \<open>
  What \<open>selectNode\<close> makes of the element at address \<open>q\<close> when it selects the element at
  address \<open>p\<close>: it is marked selected exactly when it is that element, and it is expanded
  when it was or when it lies above that element.
\<close>

definition selectedAt :: "nat list \<Rightarrow> nat list \<Rightarrow> nodeEl \<Rightarrow> nodeEl" where
  "selectedAt p q e = e\<lparr>selected := (q = p), expanded := (expanded e \<or> strict_prefix q p)\<rparr>"

text \<open>
  No display id and no name of the forest holds the character \<open><\<close>, so that the labels
  written with \<open>innerHTML\<close> are text.
\<close>

definition plainLabels :: "node list \<Rightarrow> bool" where
  "plainLabels forest =
     list_all (\<lambda>n. CHR ''<'' \<notin> set (id_display n) \<and> CHR ''<'' \<notin> set (name n)) (allNodes forest)"

section \<open>Properties of the transform stage\<close>

lemma transformItems_unfold:
  "transformItems items = (case items of Arr xs \<Rightarrow> mapE transformItem xs | _ \<Rightarrow> Inr [])"
proof (cases items)
  case (Arr xs)
  have "transformItems (Arr xs) = mapE transformItem xs"
    by (subst transformItems.simps, simp only: jsval.case, rule mapE_cong, rule refl)
       (simp add: transformItem_def Let_def cong: if_cong)
  with Arr show ?thesis by simp
qed (subst transformItems.simps, simp)+

lemma transformItems_Arr: "transformItems (Arr xs) = mapE transformItem xs"
  by (simp add: transformItems_unfold)

lemma mapE_Inr:
  "mapE f xs = Inr ys \<Longrightarrow> length ys = length xs \<and> (\<forall>k<length xs. f (xs ! k) = Inr (ys ! k))"
proof (induction xs arbitrary: ys)
  case Nil
  then show ?case by simp
next
  case (Cons x xs)
  then obtain y ys' where y: "f x = Inr y" and ys': "mapE f xs = Inr ys'" and ys: "ys = y # ys'"
    by (auto split: sum.splits)
  from Cons.IH [OF ys'] y ys show ?case
    by (auto simp: nth_Cons split: nat.splits)
qed

lemma transformItem_Inr:
  assumes "transformItem item = Inr n"
  shows "\<exists>i nm cs.
           item \<noteq> Null \<and> item \<noteq> Undefined
           \<and> orElse (optFirst (getProp item ''ID'')) (Str '''') = Str i
           \<and> orElse (optFirst (getProp item ''Name'')) (Str '''') = Str nm
           \<and> transformItems (childItems item) = Inr cs
           \<and> n = Node (normalizeId i) i (trim nm)
                 (orElse (orElse (optFirst (getProp item ''Description'')) (Str ''''))
                    (Str (nm @ '' classification item.''))) cs"
  using assms
  by (auto simp: transformItem_def split: if_splits jsval.splits sum.splits)

lemma mapE_ok_iff: "(\<exists>ys. mapE f xs = Inr ys) \<longleftrightarrow> (\<forall>x\<in>set xs. \<exists>y. f x = Inr y)"
  by (induction xs) (auto split: sum.splits)

lemma orElse_Str_iff: "(\<exists>s. orElse v (Str '''') = Str s) \<longleftrightarrow> strOrFalsy v"
  by (cases v) (auto simp: orElse_def strOrFalsy_def)

lemma transformItem_ok_iff:
  "(\<exists>n. transformItem item = Inr n) \<longleftrightarrow>
     item \<noteq> Null \<and> item \<noteq> Undefined
     \<and> strOrFalsy (optFirst (getProp item ''ID''))
     \<and> strOrFalsy (optFirst (getProp item ''Name''))
     \<and> (\<exists>cs. transformItems (childItems item) = Inr cs)"
proof
  assume "\<exists>n. transformItem item = Inr n"
  then obtain n where "transformItem item = Inr n" ..
  from transformItem_Inr [OF this] show "item \<noteq> Null \<and> item \<noteq> Undefined
     \<and> strOrFalsy (optFirst (getProp item ''ID''))
     \<and> strOrFalsy (optFirst (getProp item ''Name''))
     \<and> (\<exists>cs. transformItems (childItems item) = Inr cs)"
    using orElse_Str_iff by blast
next
  assume a: "item \<noteq> Null \<and> item \<noteq> Undefined
     \<and> strOrFalsy (optFirst (getProp item ''ID''))
     \<and> strOrFalsy (optFirst (getProp item ''Name''))
     \<and> (\<exists>cs. transformItems (childItems item) = Inr cs)"
  then obtain i nm cs where "orElse (optFirst (getProp item ''ID'')) (Str '''') = Str i"
    "orElse (optFirst (getProp item ''Name'')) (Str '''') = Str nm"
    "transformItems (childItems item) = Inr cs"
    using orElse_Str_iff by blast
  with a show "\<exists>n. transformItem item = Inr n"
    by (simp add: transformItem_def)
qed

lemma wellFormedItems_unfold:
  "wellFormedItems items =
     (case items of
        Arr xs \<Rightarrow>
          (\<forall>item\<in>set xs.
             item \<noteq> Null \<and> item \<noteq> Undefined
             \<and> strOrFalsy (optFirst (getProp item ''ID''))
             \<and> strOrFalsy (optFirst (getProp item ''Name''))
             \<and> wellFormedItems (childItems item))
      | _ \<Rightarrow> True)"
  by (subst wellFormedItems.simps) (simp add: list_all_iff split: jsval.splits)

lemma transformItems_ok_iff:
  "(\<exists>ns. transformItems items = Inr ns) \<longleftrightarrow> wellFormedItems items"
proof (induction items rule: measure_induct_rule [of jsize])
  case (less items)
  show ?case
  proof (cases items)
    case (Arr xs)
    have "(\<exists>n. transformItem item = Inr n) \<longleftrightarrow>
            (item \<noteq> Null \<and> item \<noteq> Undefined
             \<and> strOrFalsy (optFirst (getProp item ''ID''))
             \<and> strOrFalsy (optFirst (getProp item ''Name''))
             \<and> wellFormedItems (childItems item))" if "item \<in> set xs" for item
    proof -
      have "jsize (childItems item) < jsize items"
        using that Arr jsize_childItems [of item] jsize_elem [of item xs] by simp
      from less.IH [OF this] show ?thesis
        by (simp add: transformItem_ok_iff)
    qed
    then have "(\<forall>x\<in>set xs. \<exists>y. transformItem x = Inr y) \<longleftrightarrow>
            (\<forall>item\<in>set xs. item \<noteq> Null \<and> item \<noteq> Undefined
             \<and> strOrFalsy (optFirst (getProp item ''ID''))
             \<and> strOrFalsy (optFirst (getProp item ''Name''))
             \<and> wellFormedItems (childItems item))"
      by blast
    then show ?thesis
      using Arr by (simp add: transformItems_Arr mapE_ok_iff wellFormedItems_unfold [of "Arr xs"])
  qed (simp_all add: transformItems_unfold wellFormedItems_unfold)
qed

lemma mapE_error: "mapE f xs = Inl e \<Longrightarrow> \<exists>x\<in>set xs. f x = Inl e"
  by (induction xs) (auto split: sum.splits)

lemma transformItems_error: "transformItems items = Inl e \<Longrightarrow> e = TypeError"
proof (induction items arbitrary: e rule: measure_induct_rule [of jsize])
  case (less items)
  show ?case
  proof (cases items)
    case (Arr xs)
    with less.prems obtain item where item: "item \<in> set xs" "transformItem item = Inl e"
      using mapE_error by (fastforce simp: transformItems_Arr)
    have "jsize (childItems item) < jsize items"
      using item Arr jsize_childItems [of item] jsize_elem [of item xs] by simp
    from less.IH [OF this] item(2) show ?thesis
      by (auto simp: transformItem_def split: if_splits jsval.splits sum.splits)
  qed (use less.prems in \<open>simp_all add: transformItems_unfold\<close>)
qed

lemma transformData_unfold:
  "transformData src =
     (case findSystem src of
        Inl e \<Rightarrow> Inl e
      | Inr system \<Rightarrow>
          if \<not> truthy system then Inl InvalidStructure
          else (case transformItems (systemItems system) of
                  Inl e \<Rightarrow> Inl e
                | Inr treeData \<Rightarrow>
                    Inr (\<lparr> name_info = orElse (optFirst (getProp system ''Name'')) (Str ''Unknown''),
                         version_info = orElse (optFirst (getProp system ''EditionVersion'')) (Str ''''),
                         description_info = orElse (optFirst (getProp system ''Description'')) (Str ''''),
                         source_info = orElse (optFirst (getProp system ''Source'')) (Str '''') \<rparr>, treeData)))"
  by (simp add: transformData_def systemItems_def Let_def split: sum.splits)

lemma findSystem_error: "findSystem src = Inl e \<Longrightarrow> e = TypeError"
  by (cases src) (auto simp: findSystem_def)

section \<open>Properties of the lookup maps\<close>

lemma buildMaps_Nil: "buildMaps [] parent m = m"
  by (subst buildMaps.simps) simp

lemma buildMaps_Cons:
  "buildMaps (n # ns) parent m =
     buildMaps ns parent
       (let nm = AList.update (id_node n) n (fst m);
            pm = (case parent of
                    Some p \<Rightarrow> AList.update (id_node n) (id_node p) (snd m)
                  | None \<Rightarrow> snd m)
        in if children n \<noteq> [] then buildMaps (children n) (Some n) (nm, pm) else (nm, pm))"
  by (subst buildMaps.simps, subst (2) buildMaps.simps) simp

lemma putAll_simps:
  "putAll [] al = al"
  "putAll (kv # kvs) al = putAll kvs (AList.update (fst kv) (snd kv) al)"
  "putAll (xs @ ys) al = putAll ys (putAll xs al)"
  by (simp_all add: putAll_def)

lemma entriesOf_simps:
  "entriesOf [] = []"
  "entriesOf ((a, n) # xs) = (id_node n, n) # entriesOf xs"
  "entriesOf (xs @ ys) = entriesOf xs @ entriesOf ys"
  by (simp_all add: entriesOf_def)

lemma edgesOf_simps:
  "edgesOf [] = []"
  "edgesOf ((a, n) # xs) = (if a = [] then [] else [(id_node n, id_node (last a))]) @ edgesOf xs"
  "edgesOf (xs @ ys) = edgesOf xs @ edgesOf ys"
  by (simp_all add: edgesOf_def)

lemma buildMaps_putAll:
  "parent = (if anc = [] then None else Some (last anc)) \<Longrightarrow>
   buildMaps nodes parent (nm, pm) =
     (putAll (entriesOf (ancestry anc nodes)) nm, putAll (edgesOf (ancestry anc nodes)) pm)"
proof (induction anc nodes arbitrary: parent nm pm rule: ancestry.induct)
  case (1 anc)
  then show ?case by (simp add: buildMaps_Nil putAll_simps entriesOf_simps edgesOf_simps)
next
  case (2 anc n ns)
  define nm1 where "nm1 = AList.update (id_node n) n nm"
  define pm1 where "pm1 = (case parent of
                    Some p \<Rightarrow> AList.update (id_node n) (id_node p) pm
                  | None \<Rightarrow> pm)"
  define kidsA where "kidsA = ancestry (anc @ [n]) (children n)"
  have kids: "buildMaps (children n) (Some n) (nm1, pm1) =
     (putAll (entriesOf kidsA) nm1, putAll (edgesOf kidsA) pm1)"
    unfolding kidsA_def by (rule "2.IH"(1)) simp
  have nokids: "children n = [] \<Longrightarrow> kidsA = []"
    by (simp add: kidsA_def)
  have "buildMaps (n # ns) parent (nm, pm) =
          buildMaps ns parent (putAll (entriesOf kidsA) nm1, putAll (edgesOf kidsA) pm1)"
  proof (cases "children n = []")
    case True
    then show ?thesis
      by (simp add: buildMaps_Cons nokids putAll_simps entriesOf_simps edgesOf_simps
            nm1_def pm1_def cong: option.case_cong)
  next
    case False
    then show ?thesis
      using kids by (simp add: buildMaps_Cons nm1_def pm1_def cong: option.case_cong)
  qed
  also have "\<dots> = (putAll (entriesOf (ancestry anc ns)) (putAll (entriesOf kidsA) nm1),
                     putAll (edgesOf (ancestry anc ns)) (putAll (edgesOf kidsA) pm1))"
    by (rule "2.IH"(2) [OF "2.prems"])
  also have "putAll (entriesOf (ancestry anc ns)) (putAll (entriesOf kidsA) nm1)
               = putAll (entriesOf (ancestry anc (n # ns))) nm"
    by (simp add: entriesOf_simps putAll_simps nm1_def kidsA_def)
  also have "putAll (edgesOf (ancestry anc ns)) (putAll (edgesOf kidsA) pm1)
               = putAll (edgesOf (ancestry anc (n # ns))) pm"
    using "2.prems" by (simp add: edgesOf_simps putAll_simps pm1_def kidsA_def)
  finally show ?case .
qed

lemma update_fresh: "k \<notin> fst ` set al \<Longrightarrow> AList.update k v al = al @ [(k, v)]"
  by (induction al) auto

lemma putAll_fresh: "distinct (map fst (al @ kvs)) \<Longrightarrow> putAll kvs al = al @ kvs"
proof (induction kvs arbitrary: al)
  case Nil
  then show ?case by (simp add: putAll_simps)
next
  case (Cons kv kvs)
  then have f: "fst kv \<notin> fst ` set al" by auto
  have "putAll (kv # kvs) al = putAll kvs (al @ [kv])"
    by (simp add: putAll_simps update_fresh [OF f])
  also have "\<dots> = (al @ [kv]) @ kvs"
    using Cons.prems by (intro Cons.IH) auto
  finally show ?case by simp
qed

lemma putAll_keys: "fst ` set (putAll kvs al) = fst ` set al \<union> fst ` set kvs"
  by (induction kvs arbitrary: al) (auto simp: putAll_simps dom_update)

lemma countItems_Nil: "countItems [] = 0"
  by (subst countItems.simps) simp

lemma countItems_Cons: "countItems (n # ns) = 1 + countItems (children n) + countItems ns"
  by (subst countItems.simps, subst (3) countItems.simps) simp

lemma length_ancestry: "length (ancestry anc nodes) = countItems nodes"
  by (induction anc nodes rule: ancestry.induct) (simp_all add: countItems_Nil countItems_Cons)

lemma map_snd_ancestry: "map snd (ancestry anc nodes) = map snd (ancestry anc' nodes)"
proof (induction anc nodes arbitrary: anc' rule: ancestry.induct)
  case (1 anc)
  then show ?case by simp
next
  case (2 anc n ns)
  from "2.IH"(1) [of "anc' @ [n]"] "2.IH"(2) [of anc'] show ?case by simp
qed

lemma map_fst_entriesOf: "map fst (entriesOf xs) = map (id_node \<circ> snd) xs"
  by (simp add: entriesOf_def case_prod_unfold comp_def)

lemma map_fst_edgesOf:
  "map fst (edgesOf xs) = map (id_node \<circ> snd) (filter (\<lambda>(a, n). a \<noteq> []) xs)"
  by (simp add: edgesOf_def case_prod_unfold comp_def)

lemma uniqueIds_distinct: "uniqueIds forest \<longleftrightarrow> distinct (map (id_node \<circ> snd) (ancestry [] forest))"
  by (simp add: uniqueIds_def allNodes_def)

lemma maps_unique:
  assumes "uniqueIds forest"
  shows "buildMaps forest None ([], []) =
           (entriesOf (ancestry [] forest), edgesOf (ancestry [] forest))"
proof -
  have d: "distinct (map (id_node \<circ> snd) (ancestry [] forest))"
    using assms by (simp add: uniqueIds_distinct)
  have "putAll (entriesOf (ancestry [] forest)) [] = [] @ entriesOf (ancestry [] forest)"
    by (rule putAll_fresh) (simp add: map_fst_entriesOf d)
  moreover have "putAll (edgesOf (ancestry [] forest)) [] = [] @ edgesOf (ancestry [] forest)"
    by (rule putAll_fresh) (simp add: map_fst_edgesOf distinct_map_filter [OF d])
  ultimately show ?thesis
    by (simp add: buildMaps_putAll [of None "[]"])
qed

lemma ancestry_prefix: "(a, n) \<in> set (ancestry anc nodes) \<Longrightarrow> \<exists>b. a = anc @ b"
  by (induction anc nodes rule: ancestry.induct) auto

lemma ancestry_parent:
  "(a, n) \<in> set (ancestry anc nodes) \<Longrightarrow> a \<noteq> anc \<Longrightarrow>
     (butlast a, last a) \<in> set (ancestry anc nodes)"
proof (induction anc nodes rule: ancestry.induct)
  case (1 anc)
  then show ?case by simp
next
  case (2 anc m ns)
  from "2.prems" consider
      (kid) "(a, n) \<in> set (ancestry (anc @ [m]) (children m))"
    | (sib) "(a, n) \<in> set (ancestry anc ns)"
    by auto
  then show ?case
  proof cases
    case kid
    show ?thesis
    proof (cases "a = anc @ [m]")
      case True
      then show ?thesis by simp
    next
      case False
      with "2.IH"(1) kid show ?thesis by simp
    qed
  next
    case sib
    with "2.IH"(2) "2.prems"(2) show ?thesis by simp
  qed
qed

lemma ancestry_ancestor:
  "(a, n) \<in> set (ancestry [] forest) \<Longrightarrow> m \<in> set a \<Longrightarrow>
     \<exists>b. (b, m) \<in> set (ancestry [] forest)"
proof (induction "length a" arbitrary: a n)
  case 0
  then show ?case by simp
next
  case (Suc k)
  then have ne: "a \<noteq> []" by auto
  from ancestry_parent [OF Suc.prems(1) ne]
  have p: "(butlast a, last a) \<in> set (ancestry [] forest)" .
  show ?case
  proof (cases "m = last a")
    case True
    with p show ?thesis by blast
  next
    case False
    with Suc.prems(2) ne have "m \<in> set (butlast a)"
      by (cases a rule: rev_cases) auto
    moreover have "k = length (butlast a)" using Suc.hyps(2) by simp
    ultimately show ?thesis using Suc.hyps(1) p by blast
  qed
qed

lemma unique_same:
  assumes "uniqueIds forest"
    and "(a, n) \<in> set (ancestry [] forest)" and "(b, m) \<in> set (ancestry [] forest)"
    and "id_node n = id_node m"
  shows "a = b \<and> n = m"
proof -
  have "inj_on (id_node \<circ> snd) (set (ancestry [] forest))"
    using assms(1) by (simp add: uniqueIds_distinct distinct_map)
  from inj_onD [OF this, of "(a, n)" "(b, m)"] assms show ?thesis by simp
qed

lemma nodeMap_lookup:
  assumes "uniqueIds forest" and "(a, n) \<in> set (ancestry [] forest)"
  shows "map_of (entriesOf (ancestry [] forest)) (id_node n) = Some n"
proof (rule map_of_is_SomeI)
  show "distinct (map fst (entriesOf (ancestry [] forest)))"
    using assms(1) by (simp add: map_fst_entriesOf uniqueIds_distinct)
  show "(id_node n, n) \<in> set (entriesOf (ancestry [] forest))"
    using assms(2) by (force simp: entriesOf_def)
qed

lemma parentMap_lookup:
  assumes "uniqueIds forest" and "(a, n) \<in> set (ancestry [] forest)"
  shows "map_of (edgesOf (ancestry [] forest)) (id_node n)
           = (if a = [] then None else Some (id_node (last a)))"
proof (cases "a = []")
  case True
  have "id_node n \<notin> fst ` set (edgesOf (ancestry [] forest))"
  proof
    assume "id_node n \<in> fst ` set (edgesOf (ancestry [] forest))"
    then obtain b m where "(b, m) \<in> set (ancestry [] forest)" "b \<noteq> []" "id_node m = id_node n"
      by (auto simp: edgesOf_def)
    with unique_same [OF assms, of b m] True show False by simp
  qed
  with True show ?thesis by (simp add: map_of_eq_None_iff)
next
  case False
  have "map_of (edgesOf (ancestry [] forest)) (id_node n) = Some (id_node (last a))"
  proof (rule map_of_is_SomeI)
    show "distinct (map fst (edgesOf (ancestry [] forest)))"
      using assms(1) by (simp add: map_fst_edgesOf uniqueIds_distinct distinct_map_filter)
    show "(id_node n, id_node (last a)) \<in> set (edgesOf (ancestry [] forest))"
      using assms(2) False by (force simp: edgesOf_def)
  qed
  with False show ?thesis by simp
qed

lemma parentMap_unknown:
  "k \<notin> id_node ` set (allNodes forest) \<Longrightarrow> map_of (edgesOf (ancestry [] forest)) k = None"
  by (force simp: map_of_eq_None_iff edgesOf_def allNodes_def)

lemma getPathLoop_chain:
  assumes "uniqueIds forest" and "(a, n) \<in> set (ancestry [] forest)"
  shows "getPathLoop (edgesOf (ancestry [] forest)) (id_node n) path = Some (map id_node a @ path)"
  using assms(2)
proof (induction "length a" arbitrary: a n path)
  case 0
  then have "a = []" by simp
  with parentMap_lookup [OF assms(1) "0.prems"] show ?case
    by (subst getPathLoop.simps) simp
next
  case (Suc k)
  then have ne: "a \<noteq> []" by auto
  from ancestry_parent [OF Suc.prems ne]
  have p: "(butlast a, last a) \<in> set (ancestry [] forest)" .
  have "k = length (butlast a)" using Suc.hyps(2) by simp
  from Suc.hyps(1) [OF this p]
  have "getPathLoop (edgesOf (ancestry [] forest)) (id_node (last a)) (id_node (last a) # path)
          = Some (map id_node (butlast a) @ id_node (last a) # path)" .
  moreover have "map id_node (butlast a) @ id_node (last a) # path = map id_node a @ path"
    using ne by (cases a rule: rev_cases) auto
  ultimately show ?case
    using parentMap_lookup [OF assms(1) Suc.prems] ne
    by (subst getPathLoop.simps) simp
qed

lemma getPath_node:
  assumes "uniqueIds forest" and "(a, n) \<in> set (ancestry [] forest)"
  shows "getPath (edgesOf (ancestry [] forest)) (id_node n) = Some (map id_node (a @ [n]))"
  by (simp add: getPath_def getPathLoop_chain [OF assms])

lemma getPath_unknown:
  assumes "k \<notin> id_node ` set (allNodes forest)"
  shows "getPath (edgesOf (ancestry [] forest)) k = Some [k]"
  unfolding getPath_def
  by (subst getPathLoop.simps) (simp add: parentMap_unknown [OF assms])



lemma indexed_initialize: "indexed forest (initialize forest)"
  by (simp add: indexed_def initialize_def Let_def)

lemma indexed_unique:
  assumes "uniqueIds forest" and "indexed forest v"
  shows "nodeMap v = entriesOf (ancestry [] forest)" and "parentMap v = edgesOf (ancestry [] forest)"
  using assms(2) by (simp_all add: indexed_def maps_unique [OF assms(1)])

text \<open>
  C9.  For a forest with unique node ids, after the maps are built \<open>nodeMap\<close> has one
  entry per node, so its size is the number of nodes that \<open>countItems\<close> computes; its
  keys are the ids of the nodes and each id leads to its node.  \<open>parentMap\<close> has one
  entry per key, maps the id of every node that has a parent to the id of that parent
  (the last of its ancestors), and has no entry for a root.
\<close>

theorem buildMaps_complete:
  assumes "uniqueIds forest"
  shows "length (nodeMap (initialize forest)) = countItems forest
     \<and> distinct (map fst (nodeMap (initialize forest)))
     \<and> fst ` set (nodeMap (initialize forest)) = id_node ` set (allNodes forest)
     \<and> (\<forall>n\<in>set (allNodes forest). map_of (nodeMap (initialize forest)) (id_node n) = Some n)
     \<and> distinct (map fst (parentMap (initialize forest)))
     \<and> (\<forall>(anc, n)\<in>set (ancestry [] forest).
           map_of (parentMap (initialize forest)) (id_node n)
             = (if anc = [] then None else Some (id_node (last anc))))"
proof -
  note m = indexed_unique [OF assms indexed_initialize]
  have d: "distinct (map (id_node \<circ> snd) (ancestry [] forest))"
    using assms by (simp add: uniqueIds_distinct)
  show ?thesis
  proof (intro conjI ballI)
    show "length (nodeMap (initialize forest)) = countItems forest"
      by (simp add: m entriesOf_def length_ancestry)
    show "distinct (map fst (nodeMap (initialize forest)))"
      by (simp add: m map_fst_entriesOf d)
    show "fst ` set (nodeMap (initialize forest)) = id_node ` set (allNodes forest)"
      by (force simp: m entriesOf_def allNodes_def)
    show "distinct (map fst (parentMap (initialize forest)))"
      by (simp add: m map_fst_edgesOf distinct_map_filter [OF d])
  next
    fix n assume "n \<in> set (allNodes forest)"
    then obtain a where "(a, n) \<in> set (ancestry [] forest)"
      by (auto simp: allNodes_def)
    from nodeMap_lookup [OF assms this]
    show "map_of (nodeMap (initialize forest)) (id_node n) = Some n"
      by (simp add: m)
  next
    fix x assume x: "x \<in> set (ancestry [] forest)"
    obtain anc n where xa: "x = (anc, n)" by (cases x)
    from parentMap_lookup [OF assms x [unfolded xa]]
    show "case x of (anc, n) \<Rightarrow>
            map_of (parentMap (initialize forest)) (id_node n)
              = (if anc = [] then None else Some (id_node (last anc)))"
      by (simp add: m xa)
  qed
qed

lemma unique_forest_a: "uniqueIds forest_a"
  by (simp add: uniqueIds_def allNodes_def forest_a_defs)

theorem buildMaps_complete_witness:
  "uniqueIds forest_a
   \<and> length (nodeMap (initialize forest_a)) = 4
   \<and> countItems forest_a = 4
   \<and> map_of (parentMap (initialize forest_a)) ''A1a'' = Some ''A1''
   \<and> map_of (parentMap (initialize forest_a)) ''A'' = None"
  using buildMaps_complete [OF unique_forest_a] unique_forest_a
  by (simp add: forest_a_defs countItems_Nil countItems_Cons)

section \<open>The transform stage at every depth\<close>

lemma allNodes_Nil: "allNodes [] = []"
  by (simp add: allNodes_def)

lemma allNodes_Cons: "allNodes (n # ns) = n # allNodes (children n) @ allNodes ns"
  using map_snd_ancestry [of "[n]" "children n" "[]"] by (simp add: allNodes_def)

lemma allItems_Arr_Nil: "allItems (Arr []) = []"
  by (subst allItems.simps) simp

lemma allItems_Arr_Cons:
  "allItems (Arr (x # xs)) = x # allItems (childItems x) @ allItems (Arr xs)"
  by (subst allItems.simps, subst (3) allItems.simps) simp

lemma allItems_other: "(case items of Arr xs \<Rightarrow> False | _ \<Rightarrow> True) \<Longrightarrow> allItems items = []"
  by (subst allItems.simps) (simp split: jsval.splits)

lemma transformItems_all:
  "transformItems items = Inr ns \<Longrightarrow>
     list_all2 (\<lambda>item n. transformItem item = Inr n) (allItems items) (allNodes ns)"
proof (induction items arbitrary: ns rule: measure_induct_rule [of jsize])
  case (less items)
  show ?case
  proof (cases items)
    case (Arr xs)
    have inner: "mapE transformItem ys = Inr ms \<Longrightarrow> set ys \<subseteq> set xs \<Longrightarrow>
             list_all2 (\<lambda>item n. transformItem item = Inr n) (allItems (Arr ys)) (allNodes ms)"
      for ys ms
    proof (induction ys arbitrary: ms)
      case Nil
      then show ?case by (simp add: allItems_Arr_Nil allNodes_Nil)
    next
      case (Cons y ys)
      from Cons.prems(1) obtain n ms' where n: "transformItem y = Inr n"
        and ms': "mapE transformItem ys = Inr ms'" and ms: "ms = n # ms'"
        by (auto split: sum.splits)
      from transformItem_Inr [OF n] obtain cs where
        cs: "transformItems (childItems y) = Inr cs" "children n = cs"
        by auto
      have "y \<in> set xs" using Cons.prems(2) by simp
      then have "jsize (childItems y) < jsize items"
        using Arr jsize_childItems [of y] jsize_elem [of y xs] by simp
      from less.IH [OF this cs(1)]
      have kids: "list_all2 (\<lambda>item n. transformItem item = Inr n) (allItems (childItems y)) (allNodes cs)" .
      from Cons.IH [OF ms'] Cons.prems(2)
      have rest: "list_all2 (\<lambda>item n. transformItem item = Inr n) (allItems (Arr ys)) (allNodes ms')"
        by simp
      show ?case
        using n kids rest cs(2)
        by (simp add: ms allItems_Arr_Cons allNodes_Cons list_all2_appendI)
    qed
    from less.prems Arr have "mapE transformItem xs = Inr ns"
      by (simp add: transformItems_Arr)
    from inner [OF this] Arr show ?thesis by simp
  qed (use less.prems in \<open>simp_all add: transformItems_unfold allItems_other allNodes_Nil\<close>)
qed

lemma normalizeId_chars:
  "length (normalizeId i) = length i
   \<and> (\<forall>j<length i. normalizeId i ! j =
         (if isSpace (i ! j) \<or> i ! j = CHR ''-'' then CHR ''_'' else i ! j))"
  by (simp add: normalizeId_def)

lemma transformData_tree:
  assumes "transformData src = Inr (info, tree)"
  shows "\<exists>system. findSystem src = Inr system \<and> truthy system
           \<and> transformItems (systemItems system) = Inr tree
           \<and> info = \<lparr> name_info = orElse (optFirst (getProp system ''Name'')) (Str ''Unknown''),
                       version_info = orElse (optFirst (getProp system ''EditionVersion'')) (Str ''''),
                       description_info = orElse (optFirst (getProp system ''Description'')) (Str ''''),
                       source_info = orElse (optFirst (getProp system ''Source'')) (Str '''') \<rparr>"
  using assms by (auto simp: transformData_unfold split: sum.splits if_splits)

text \<open>
  C7, as the code has it.  The tree that \<open>transformData\<close> returns is what \<open>transformItems\<close>
  makes of the items of the system.  For every list of source items that
  \<open>transformItems\<close> accepts, the nodes at every depth are as many as the source items at
  every depth, and the \<open>k\<close>-th node keeps the \<open>ID\<close> of the \<open>k\<close>-th item unchanged as
  \<open>id_display\<close>, while its \<open>id\<close> is that \<open>ID\<close> with every single white-space character and
  every single hyphen replaced by one underscore: the two have the same length and
  agree at every position that holds neither, so a run of \<open>k\<close> such characters yields \<open>k\<close>
  underscores.
\<close>

theorem transformItems_id:
  "(transformData src = Inr (info, ns) \<longrightarrow>
      (\<exists>system. findSystem src = Inr system \<and> transformItems (systemItems system) = Inr ns))
   \<and> (transformItems items = Inr ns \<longrightarrow>
        length (allNodes ns) = length (allItems items)
        \<and> (\<forall>k<length (allItems items). \<exists>i.
              orElse (optFirst (getProp (allItems items ! k) ''ID'')) (Str '''') = Str i
              \<and> id_display (allNodes ns ! k) = i
              \<and> length (id_node (allNodes ns ! k)) = length i
              \<and> (\<forall>j<length i. id_node (allNodes ns ! k) ! j =
                    (if isSpace (i ! j) \<or> i ! j = CHR ''-'' then CHR ''_'' else i ! j))))"
proof (intro conjI impI)
  assume "transformData src = Inr (info, ns)"
  from transformData_tree [OF this]
  show "\<exists>system. findSystem src = Inr system \<and> transformItems (systemItems system) = Inr ns"
    by blast
next
  assume a: "transformItems items = Inr ns"
  note r = transformItems_all [OF a]
  show "length (allNodes ns) = length (allItems items)"
    using list_all2_lengthD [OF r] by simp
  show "\<forall>k<length (allItems items). \<exists>i.
              orElse (optFirst (getProp (allItems items ! k) ''ID'')) (Str '''') = Str i
              \<and> id_display (allNodes ns ! k) = i
              \<and> length (id_node (allNodes ns ! k)) = length i
              \<and> (\<forall>j<length i. id_node (allNodes ns ! k) ! j =
                    (if isSpace (i ! j) \<or> i ! j = CHR ''-'' then CHR ''_'' else i ! j))"
  proof (intro allI impI)
    fix k assume k: "k < length (allItems items)"
    from list_all2_nthD [OF r k]
    have t: "transformItem (allItems items ! k) = Inr (allNodes ns ! k)" .
    from transformItem_Inr [OF t] obtain i
      where i: "orElse (optFirst (getProp (allItems items ! k) ''ID'')) (Str '''') = Str i"
      and n: "id_display (allNodes ns ! k) = i" "id_node (allNodes ns ! k) = normalizeId i"
      by auto
    show "\<exists>i. orElse (optFirst (getProp (allItems items ! k) ''ID'')) (Str '''') = Str i
            \<and> id_display (allNodes ns ! k) = i
            \<and> length (id_node (allNodes ns ! k)) = length i
            \<and> (\<forall>j<length i. id_node (allNodes ns ! k) ! j =
                  (if isSpace (i ! j) \<or> i ! j = CHR ''-'' then CHR ''_'' else i ! j))"
      using i n normalizeId_chars [of i] by (intro exI [of _ i]) simp
  qed
qed

lemma transform_nested: "transformItems items_nested = Inr nodes_nested"
  by (simp add: items_nested_def nodes_nested_def transformItems_unfold transformItem_def
        normalizeId_def isSpace_def orElse_def childItems_def trim_def)

lemma transformData_nested: "transformData source_nested = Inr (info_default, nodes_nested)"
proof -
  have t: "truthy items_nested"
    by (simp add: items_nested_def)
  show ?thesis
    by (simp add: source_nested_def info_default_def transformData_unfold findSystem_def
          systemItems_def orElse_def t transform_nested)
qed

theorem transformItems_id_witness:
  "transformData source_nested = Inr (info_default, nodes_nested)
   \<and> transformItems items_nested = Inr nodes_nested
   \<and> length (allNodes nodes_nested) = length (allItems items_nested)
   \<and> length (allItems items_nested) = 2
   \<and> id_display (allNodes nodes_nested ! 0) = ''a - b''
   \<and> id_node (allNodes nodes_nested ! 0) = ''a___b''
   \<and> id_display (allNodes nodes_nested ! 1) = [CHR ''c'', CHR 0xA0, CHR ''d'']
   \<and> id_node (allNodes nodes_nested ! 1) = ''c_d''"
proof -
  have l: "length (allItems items_nested) = 2"
    by (simp add: items_nested_def allItems_Arr_Cons allItems_Arr_Nil childItems_def orElse_def)
  have n: "allNodes nodes_nested =
             [Node ''a___b'' ''a - b'' '''' (Str '' classification item.'')
                [Node ''c_d'' [CHR ''c'', CHR 0xA0, CHR ''d''] '''' (Str '' classification item.'') []],
              Node ''c_d'' [CHR ''c'', CHR 0xA0, CHR ''d''] '''' (Str '' classification item.'') []]"
    by (simp add: nodes_nested_def allNodes_Cons allNodes_Nil)
  from transformItems_id [of source_nested info_default nodes_nested items_nested]
    transformData_nested transform_nested l n
  show ?thesis by simp
qed

text \<open>
  The claim C7 as it is worded fails: the \<open>ID\<close> \<open>a - b\<close> has one run of three separator
  characters, which collapses to \<open>a_b\<close>, and the transform emits \<open>a___b\<close>.
\<close>

theorem transformItems_id_counterexample:
  "transformItems (Arr [Obj [(''ID'', Arr [Str ''a - b''])]])
     = Inr [Node ''a___b'' ''a - b'' '''' (Str '' classification item.'') []]
   \<and> collapseSeparators ''a - b'' = ''a_b''
   \<and> ''a___b'' \<noteq> collapseSeparators ''a - b''"
  by (simp add: transformItems_unfold transformItem_def normalizeId_def isSpace_def
        isSeparator_def orElse_def childItems_def trim_def)

text \<open>
  C6, as the code has it.  \<open>transformData\<close> raises its structural error exactly when the
  source is not \<open>null\<close> and the chain of reads for the system yields a falsy value, and
  it never raises another error than that one and a \<open>TypeError\<close>.  It succeeds exactly
  when the system is found and the items are well formed, and then returns the system's
  information and what \<open>transformItems\<close> makes of the system's items.  For every list of
  source items that \<open>transformItems\<close> accepts, the \<open>k\<close>-th node at any depth is made from
  the \<open>k\<close>-th item at any depth: its children are the transform of the item's children,
  and a missing \<open>ID\<close>, \<open>Name\<close>, \<open>Description\<close> or \<open>Children\<close> field is defaulted to the empty
  string, the empty string, the phrase made from the name, and no children.
\<close>

theorem transformData_outcome:
  "(transformData src = Inl InvalidStructure
      \<longleftrightarrow> (\<exists>system. findSystem src = Inr system \<and> \<not> truthy system))
   \<and> transformData src \<noteq> Inl SyntaxError
   \<and> ((\<exists>r. transformData src = Inr r)
      \<longleftrightarrow> (\<exists>system. findSystem src = Inr system \<and> truthy system
                     \<and> wellFormedItems (systemItems system)))
   \<and> (transformData src = Inr (info, tree) \<longrightarrow>
        (\<exists>system. findSystem src = Inr system \<and> truthy system
           \<and> transformItems (systemItems system) = Inr tree
           \<and> info = \<lparr> name_info = orElse (optFirst (getProp system ''Name'')) (Str ''Unknown''),
                       version_info = orElse (optFirst (getProp system ''EditionVersion'')) (Str ''''),
                       description_info = orElse (optFirst (getProp system ''Description'')) (Str ''''),
                       source_info = orElse (optFirst (getProp system ''Source'')) (Str '''') \<rparr>))
   \<and> (transformItems items = Inr ns \<longrightarrow>
        length (allNodes ns) = length (allItems items)
        \<and> (\<forall>k<length (allItems items). \<exists>i nm cs.
              orElse (optFirst (getProp (allItems items ! k) ''ID'')) (Str '''') = Str i
              \<and> orElse (optFirst (getProp (allItems items ! k) ''Name'')) (Str '''') = Str nm
              \<and> transformItems (childItems (allItems items ! k)) = Inr cs
              \<and> allNodes ns ! k =
                  Node (normalizeId i) i (trim nm)
                    (orElse (orElse (optFirst (getProp (allItems items ! k) ''Description'')) (Str ''''))
                       (Str (nm @ '' classification item.''))) cs
              \<and> (getProp (allItems items ! k) ''ID'' = Undefined \<longrightarrow>
                    id_node (allNodes ns ! k) = '''' \<and> id_display (allNodes ns ! k) = '''')
              \<and> (getProp (allItems items ! k) ''Name'' = Undefined \<longrightarrow> name (allNodes ns ! k) = '''')
              \<and> (getProp (allItems items ! k) ''Description'' = Undefined \<longrightarrow>
                    description (allNodes ns ! k) = Str (nm @ '' classification item.''))
              \<and> (getProp (allItems items ! k) ''Children'' = Undefined \<longrightarrow>
                    children (allNodes ns ! k) = [])))"
proof (intro conjI)
  show "transformData src = Inl InvalidStructure
      \<longleftrightarrow> (\<exists>system. findSystem src = Inr system \<and> \<not> truthy system)"
    using findSystem_error [of src] transformItems_error
    by (auto simp: transformData_unfold split: sum.splits)
next
  show "transformData src \<noteq> Inl SyntaxError"
    using findSystem_error [of src] transformItems_error
    by (auto simp: transformData_unfold split: sum.splits)
next
  show "(\<exists>r. transformData src = Inr r)
      \<longleftrightarrow> (\<exists>system. findSystem src = Inr system \<and> truthy system
                     \<and> wellFormedItems (systemItems system))"
    by (auto simp: transformData_unfold transformItems_ok_iff [symmetric] split: sum.splits)
next
  show "transformData src = Inr (info, tree) \<longrightarrow>
        (\<exists>system. findSystem src = Inr system \<and> truthy system
           \<and> transformItems (systemItems system) = Inr tree
           \<and> info = \<lparr> name_info = orElse (optFirst (getProp system ''Name'')) (Str ''Unknown''),
                       version_info = orElse (optFirst (getProp system ''EditionVersion'')) (Str ''''),
                       description_info = orElse (optFirst (getProp system ''Description'')) (Str ''''),
                       source_info = orElse (optFirst (getProp system ''Source'')) (Str '''') \<rparr>)"
    using transformData_tree by blast
next
  show "transformItems items = Inr ns \<longrightarrow>
        length (allNodes ns) = length (allItems items)
        \<and> (\<forall>k<length (allItems items). \<exists>i nm cs.
              orElse (optFirst (getProp (allItems items ! k) ''ID'')) (Str '''') = Str i
              \<and> orElse (optFirst (getProp (allItems items ! k) ''Name'')) (Str '''') = Str nm
              \<and> transformItems (childItems (allItems items ! k)) = Inr cs
              \<and> allNodes ns ! k =
                  Node (normalizeId i) i (trim nm)
                    (orElse (orElse (optFirst (getProp (allItems items ! k) ''Description'')) (Str ''''))
                       (Str (nm @ '' classification item.''))) cs
              \<and> (getProp (allItems items ! k) ''ID'' = Undefined \<longrightarrow>
                    id_node (allNodes ns ! k) = '''' \<and> id_display (allNodes ns ! k) = '''')
              \<and> (getProp (allItems items ! k) ''Name'' = Undefined \<longrightarrow> name (allNodes ns ! k) = '''')
              \<and> (getProp (allItems items ! k) ''Description'' = Undefined \<longrightarrow>
                    description (allNodes ns ! k) = Str (nm @ '' classification item.''))
              \<and> (getProp (allItems items ! k) ''Children'' = Undefined \<longrightarrow>
                    children (allNodes ns ! k) = []))"
  proof (intro impI conjI allI)
    assume a: "transformItems items = Inr ns"
    note r = transformItems_all [OF a]
    show "length (allNodes ns) = length (allItems items)"
      using list_all2_lengthD [OF r] by simp
    fix k assume k: "k < length (allItems items)"
    define item where "item = allItems items ! k"
    define n where "n = allNodes ns ! k"
    from list_all2_nthD [OF r k]
    have t: "transformItem item = Inr n" by (simp add: item_def n_def)
    from transformItem_Inr [OF t] obtain i nm cs where
      i: "orElse (optFirst (getProp item ''ID'')) (Str '''') = Str i"
      and nm: "orElse (optFirst (getProp item ''Name'')) (Str '''') = Str nm"
      and cs: "transformItems (childItems item) = Inr cs"
      and n: "n = Node (normalizeId i) i (trim nm)
                 (orElse (orElse (optFirst (getProp item ''Description'')) (Str ''''))
                    (Str (nm @ '' classification item.''))) cs"
      by blast
    have d1: "getProp item ''ID'' = Undefined \<longrightarrow> id_node n = '''' \<and> id_display n = ''''"
      using i n by (auto simp: orElse_def normalizeId_def)
    have d2: "getProp item ''Name'' = Undefined \<longrightarrow> name n = ''''"
      using nm n by (auto simp: orElse_def trim_def)
    have d3: "getProp item ''Description'' = Undefined \<longrightarrow>
                description n = Str (nm @ '' classification item.'')"
      using n by (auto simp: orElse_def)
    have d4: "getProp item ''Children'' = Undefined \<longrightarrow> children n = []"
      using cs n by (auto simp: childItems_def orElse_def transformItems_unfold)
    from i nm cs n d1 d2 d3 d4
    show "\<exists>i nm cs.
              orElse (optFirst (getProp (allItems items ! k) ''ID'')) (Str '''') = Str i
              \<and> orElse (optFirst (getProp (allItems items ! k) ''Name'')) (Str '''') = Str nm
              \<and> transformItems (childItems (allItems items ! k)) = Inr cs
              \<and> allNodes ns ! k =
                  Node (normalizeId i) i (trim nm)
                    (orElse (orElse (optFirst (getProp (allItems items ! k) ''Description'')) (Str ''''))
                       (Str (nm @ '' classification item.''))) cs
              \<and> (getProp (allItems items ! k) ''ID'' = Undefined \<longrightarrow>
                    id_node (allNodes ns ! k) = '''' \<and> id_display (allNodes ns ! k) = '''')
              \<and> (getProp (allItems items ! k) ''Name'' = Undefined \<longrightarrow> name (allNodes ns ! k) = '''')
              \<and> (getProp (allItems items ! k) ''Description'' = Undefined \<longrightarrow>
                    description (allNodes ns ! k) = Str (nm @ '' classification item.''))
              \<and> (getProp (allItems items ! k) ''Children'' = Undefined \<longrightarrow>
                    children (allNodes ns ! k) = [])"
      unfolding item_def [symmetric] n_def [symmetric]
      by blast
  qed
qed

lemma transformData_ok:
  "transformData source_ok
     = Inr (info_default, [Node '''' '''' '''' (Str '' classification item.'') []])"
  by (simp add: source_ok_def system_ok_def info_default_def transformData_unfold findSystem_def
        systemItems_def orElse_def transformItems_unfold transformItem_def normalizeId_def
        childItems_def trim_def)

theorem transformData_outcome_witness:
  "findSystem source_ok = Inr system_ok \<and> truthy system_ok
   \<and> wellFormedItems (systemItems system_ok)
   \<and> transformData source_ok \<noteq> Inl InvalidStructure
   \<and> transformData source_ok
        = Inr (info_default, [Node '''' '''' '''' (Str '' classification item.'') []])
   \<and> transformItems (Arr [Obj []]) = Inr [Node '''' '''' '''' (Str '' classification item.'') []]
   \<and> allItems (Arr [Obj []]) = [Obj []]
   \<and> getProp (Obj []) ''ID'' = Undefined
   \<and> getProp (Obj []) ''Children'' = Undefined
   \<and> allNodes [Node '''' '''' '''' (Str '' classification item.'') []] ! 0
        = Node '''' '''' '''' (Str '' classification item.'') []"
proof -
  have s: "findSystem source_ok = Inr system_ok"
    by (simp add: source_ok_def findSystem_def)
  have t: "truthy system_ok"
    by (simp add: system_ok_def)
  have w: "wellFormedItems (systemItems system_ok)"
    by (simp add: system_ok_def systemItems_def orElse_def wellFormedItems_unfold
          strOrFalsy_def childItems_def)
  have i: "transformItems (Arr [Obj []]) = Inr [Node '''' '''' '''' (Str '' classification item.'') []]"
    by (simp add: transformItems_unfold transformItem_def normalizeId_def orElse_def
          childItems_def trim_def)
  have a: "allItems (Arr [Obj []]) = [Obj []]"
    by (simp add: allItems_Arr_Cons allItems_Arr_Nil childItems_def orElse_def)
  have n: "allNodes [Node '''' '''' '''' (Str '' classification item.'') []]
             = [Node '''' '''' '''' (Str '' classification item.'') []]"
    by (simp add: allNodes_Cons allNodes_Nil)
  from s t w i a n transformData_ok
    transformData_outcome [of source_ok info_default
      "[Node '''' '''' '''' (Str '' classification item.'') []]" "Arr [Obj []]"
      "[Node '''' '''' '''' (Str '' classification item.'') []]"]
  show ?thesis by simp
qed

text \<open>
  The claim C6 as it is worded fails: with the system present, an item whose \<open>ID\<close> is the
  number 5 makes the transform throw (\<open>id.replace\<close> is not a function).
\<close>

theorem transformData_outcome_counterexample:
  "findSystem source_bad = Inr system_bad \<and> truthy system_bad
   \<and> transformData source_bad = Inl TypeError"
  by (simp add: source_bad_def system_bad_def transformData_unfold findSystem_def
        systemItems_def orElse_def transformItems_unfold transformItem_def)

section \<open>Paths\<close>

lemma those_map_Some:
  "(\<forall>x\<in>set xs. f (g x) = Some x) \<Longrightarrow> those (map f (map g xs)) = Some xs"
  by (induction xs) auto

lemma path_nodes:
  assumes "uniqueIds forest" and "(a, n) \<in> set (ancestry [] forest)"
  shows "those (map (map_of (entriesOf (ancestry [] forest))) (map id_node (a @ [n]))) = Some (a @ [n])"
proof (rule those_map_Some, rule ballI)
  fix m assume "m \<in> set (a @ [n])"
  then have "\<exists>b. (b, m) \<in> set (ancestry [] forest)"
    using ancestry_ancestor [OF assms(2)] assms(2) by auto
  then obtain b where "(b, m) \<in> set (ancestry [] forest)" ..
  from nodeMap_lookup [OF assms(1) this]
  show "map_of (entriesOf (ancestry [] forest)) (id_node m) = Some m" .
qed

lemma showDetail_node:
  assumes "uniqueIds forest" and "indexed forest v" and "(a, n) \<in> set (ancestry [] forest)"
  shows "showDetail (id_node n) v
           = Some (Inr (v\<lparr>detailView :=
                Some (detailOf (id_node n) n (map id_node (a @ [n])) (a @ [n]))\<rparr>))"
proof -
  note m = indexed_unique [OF assms(1,2)]
  have l: "map_of (nodeMap v) (id_node n) = Some n"
    using nodeMap_lookup [OF assms(1,3)] by (simp add: m)
  have p: "getPath (parentMap v) (id_node n) = Some (map id_node (a @ [n]))"
    using getPath_node [OF assms(1,3)] by (simp add: m)
  have t: "those (map (map_of (nodeMap v)) (map id_node (a @ [n]))) = Some (a @ [n])"
    using path_nodes [OF assms(1,3)] by (simp add: m)
  show ?thesis
    unfolding showDetail_def
    by (simp only: l p t option.case)
qed

lemma breadcrumb_ids:
  "map fst (breadcrumb (detailOf k n (map id_node xs) xs)) = map id_node xs"
  by (induction xs) (auto simp: detailOf_def)

text \<open>
  C5.  For a forest with unique node ids, a viewer with the maps of that forest, and a
  node with ancestors \<open>anc\<close> (root first), that is a node at depth \<open>length anc + 1\<close>:
  \<open>getPath\<close> returns the ids of the ancestors followed by the node's own id, so exactly as
  many entries as the depth, the root's id first and the node's id last; and
  \<open>showDetail\<close> reports that depth as the hierarchy level and that path as the breadcrumb.
\<close>

theorem getPath_depth:
  assumes "uniqueIds forest" and "indexed forest v" and "(anc, n) \<in> set (ancestry [] forest)"
  shows "\<exists>path d.
           getPath (parentMap v) (id_node n) = Some path
           \<and> path = map id_node (anc @ [n])
           \<and> length path = length anc + 1
           \<and> hd path = id_node (hd (anc @ [n]))
           \<and> last path = id_node n
           \<and> showDetail (id_node n) v = Some (Inr (v\<lparr>detailView := Some d\<rparr>))
           \<and> d = detailOf (id_node n) n path (anc @ [n])
           \<and> statLevel d = length anc + 1
           \<and> map fst (breadcrumb d) = path"
proof -
  note m = indexed_unique [OF assms(1,2)]
  have p: "getPath (parentMap v) (id_node n) = Some (map id_node (anc @ [n]))"
    using getPath_node [OF assms(1,3)] by (simp add: m)
  have h: "hd (map id_node (anc @ [n])) = id_node (hd (anc @ [n]))"
    using hd_map [of "anc @ [n]" id_node] by simp
  have la: "last (map id_node (anc @ [n])) = id_node n"
    by simp
  have s: "statLevel (detailOf (id_node n) n (map id_node (anc @ [n])) (anc @ [n])) = length anc + 1"
    by (simp add: detailOf_def)
  from p h la s showDetail_node [OF assms] breadcrumb_ids [of "id_node n" n "anc @ [n]"]
  show ?thesis
    by (intro exI [of _ "map id_node (anc @ [n])"]
          exI [of _ "detailOf (id_node n) n (map id_node (anc @ [n])) (anc @ [n])"])
       (simp del: map_append)
qed

lemma A1a_in_forest_a: "([node_A, node_A1], node_A1a) \<in> set (ancestry [] forest_a)"
  by (simp add: forest_a_defs)

theorem getPath_depth_witness:
  "uniqueIds forest_a \<and> indexed forest_a (initialize forest_a)
   \<and> ([node_A, node_A1], node_A1a) \<in> set (ancestry [] forest_a)
   \<and> getPath (parentMap (initialize forest_a)) ''A1a'' = Some [''A'', ''A1'', ''A1a'']
   \<and> (\<exists>d. showDetail ''A1a'' (initialize forest_a)
              = Some (Inr ((initialize forest_a)\<lparr>detailView := Some d\<rparr>))
          \<and> statLevel d = 3)"
  using getPath_depth [OF unique_forest_a indexed_initialize A1a_in_forest_a]
    unique_forest_a indexed_initialize [of forest_a] A1a_in_forest_a
  by (auto simp: node_A_def node_A1_def node_A1a_def)

lemma depthOf_node:
  assumes "uniqueIds forest" and "(a, n) \<in> set (ancestry [] forest)"
  shows "depthOf forest (id_node n) = length a"
proof -
  have "map_of (map (\<lambda>(a, n). (id_node n, length a)) (ancestry [] forest)) (id_node n) = Some (length a)"
  proof (rule map_of_is_SomeI)
    have e: "map fst (map (\<lambda>(a, n). (id_node n, length a)) xs) = map (id_node \<circ> snd) xs"
      for xs :: "(node list \<times> node) list"
      by (induction xs) auto
    show "distinct (map fst (map (\<lambda>(a, n). (id_node n, length a)) (ancestry [] forest)))"
      unfolding e using assms(1) by (simp only: uniqueIds_distinct)
    show "(id_node n, length a) \<in> set (map (\<lambda>(a, n). (id_node n, length a)) (ancestry [] forest))"
      using assms(2) by force
  qed
  then show ?thesis by (simp add: depthOf_def)
qed

lemma parent_edge_depth:
  assumes "uniqueIds forest" and "map_of (edgesOf (ancestry [] forest)) c = Some p"
  shows "depthOf forest p < depthOf forest c"
proof -
  from map_of_SomeD [OF assms(2)] obtain a n where
    an: "(a, n) \<in> set (ancestry [] forest)" "a \<noteq> []" "c = id_node n" "p = id_node (last a)"
    by (auto simp: edgesOf_def)
  from ancestry_parent [OF an(1)] an(2)
  have "(butlast a, last a) \<in> set (ancestry [] forest)" by simp
  from depthOf_node [OF assms(1) this] depthOf_node [OF assms(1) an(1)] an
  show ?thesis by simp
qed

text \<open>
  C10, as the code has it.  For a forest with pairwise distinct node ids, the parent
  map that \<open>buildMaps\<close> makes is well founded (no id has an infinite chain of parents) and
  acyclic, \<open>getPath\<close> returns for every id, and for the id of a node it returns the ids
  from the root down to the node.
\<close>

theorem getPath_terminates:
  assumes "uniqueIds forest"
  shows "wf {(p, c). map_of (parentMap (initialize forest)) c = Some p}
     \<and> acyclic {(c, p). map_of (parentMap (initialize forest)) c = Some p}
     \<and> (\<forall>k. \<exists>path. getPath (parentMap (initialize forest)) k = Some path)
     \<and> (\<forall>(anc, n)\<in>set (ancestry [] forest).
           getPath (parentMap (initialize forest)) (id_node n) = Some (map id_node (anc @ [n])))"
proof -
  note m = indexed_unique [OF assms indexed_initialize]
  let ?pm = "parentMap (initialize forest)"
  have sub: "{(p, c). map_of ?pm c = Some p} \<subseteq> measure (depthOf forest)"
    using parent_edge_depth [OF assms] by (auto simp: m)
  have w: "wf {(p, c). map_of ?pm c = Some p}"
    by (rule wf_subset [OF wf_measure sub])
  have "acyclic ({(p, c). map_of ?pm c = Some p}\<inverse>)"
    using wf_acyclic [OF w] by (simp only: acyclic_converse)
  moreover have "{(p, c). map_of ?pm c = Some p}\<inverse> = {(c, p). map_of ?pm c = Some p}"
    by auto
  ultimately have a: "acyclic {(c, p). map_of ?pm c = Some p}"
    by simp
  have t: "\<exists>path. getPath ?pm k = Some path" for k
  proof (cases "k \<in> id_node ` set (allNodes forest)")
    case True
    then obtain b n where "(b, n) \<in> set (ancestry [] forest)" "k = id_node n"
      by (auto simp: allNodes_def)
    with getPath_node [OF assms, of b n] show ?thesis by (simp add: m)
  next
    case False
    from getPath_unknown [OF this] show ?thesis by (simp add: m)
  qed
  have n: "\<forall>(anc, n)\<in>set (ancestry [] forest). getPath ?pm (id_node n) = Some (map id_node (anc @ [n]))"
    using getPath_node [OF assms] by (auto simp: m)
  from w a t n show ?thesis by blast
qed

theorem getPath_terminates_witness:
  "uniqueIds forest_a
   \<and> wf {(p, c). map_of (parentMap (initialize forest_a)) c = Some p}
   \<and> getPath (parentMap (initialize forest_a)) ''A2'' = Some [''A'', ''A2'']"
  using getPath_terminates [OF unique_forest_a] unique_forest_a
  by (auto simp: forest_a_defs)

lemma cycle_parentMap: "parentMap (initialize forest_cycle) = [(''X'', ''B''), (''B'', ''X'')]"
  by (simp add: initialize_def forest_cycle_def buildMaps_Nil buildMaps_Cons)

lemma getPathLoop_cycle:
  assumes "getPathLoop pm c path = Some y"
  shows "pm = [(''X'', ''B''), (''B'', ''X'')] \<longrightarrow> c \<noteq> ''X'' \<and> c \<noteq> ''B''"
proof (rule getPathLoop.raw_induct
    [where P = "\<lambda>pm c path y. pm = [(''X'', ''B''), (''B'', ''X'')] \<longrightarrow> c \<noteq> ''X'' \<and> c \<noteq> ''B''",
     OF _ assms])
  fix f :: "parentMap \<Rightarrow> string \<Rightarrow> string list \<Rightarrow> string list option"
    and pm' cur path' y'
  assume IH: "\<And>m c p y. f m c p = Some y \<Longrightarrow>
                 m = [(''X'', ''B''), (''B'', ''X'')] \<longrightarrow> c \<noteq> ''X'' \<and> c \<noteq> ''B''"
    and step: "(case map_of pm' cur of None \<Rightarrow> Some path' | Some p \<Rightarrow> f pm' p (p # path')) = Some y'"
  show "pm' = [(''X'', ''B''), (''B'', ''X'')] \<longrightarrow> cur \<noteq> ''X'' \<and> cur \<noteq> ''B''"
  proof (intro impI)
    assume pm': "pm' = [(''X'', ''B''), (''B'', ''X'')]"
    show "cur \<noteq> ''X'' \<and> cur \<noteq> ''B''"
    proof (rule ccontr)
      assume "\<not> (cur \<noteq> ''X'' \<and> cur \<noteq> ''B'')"
      then consider "cur = ''X''" | "cur = ''B''" by blast
      then show False
      proof cases
        case 1
        with step pm' have "f pm' ''B'' (''B'' # path') = Some y'" by simp
        from IH [OF this] pm' show False by simp
      next
        case 2
        with step pm' have "f pm' ''X'' (''X'' # path') = Some y'" by simp
        from IH [OF this] pm' show False by simp
      qed
    qed
  qed
qed

lemma getPath_cycle: "getPath [(''X'', ''B''), (''B'', ''X'')] ''X'' = None"
proof (cases "getPath [(''X'', ''B''), (''B'', ''X'')] ''X''")
  case None
  then show ?thesis .
next
  case (Some y)
  then have "getPathLoop [(''X'', ''B''), (''B'', ''X'')] ''X'' [''X''] = Some y"
    by (simp add: getPath_def)
  from getPathLoop_cycle [OF this] show ?thesis by simp
qed

lemma clash_free_cycle: "noAncestorClash forest_cycle"
  by (simp add: noAncestorClash_def forest_cycle_def)

text \<open>
  The claim C10 as it is worded fails.  In \<open>forest_cycle\<close> no node has the id of one of
  its ancestors, but the later registrations overwrite the earlier ones, the parent map
  sends \<open>X\<close> to \<open>B\<close> and \<open>B\<close> to \<open>X\<close>, and \<open>getPath\<close> does not return for \<open>X\<close>.
\<close>

theorem getPath_terminates_counterexample:
  "noAncestorClash forest_cycle
   \<and> map_of (parentMap (initialize forest_cycle)) ''X'' = Some ''B''
   \<and> map_of (parentMap (initialize forest_cycle)) ''B'' = Some ''X''
   \<and> getPath (parentMap (initialize forest_cycle)) ''X'' = None"
  by (simp add: cycle_parentMap getPath_cycle clash_free_cycle)

section \<open>Properties of the rendered tree\<close>

lemma elem_forest_induct [case_names Nil Cons]:
  assumes "P []" and "\<And>e es. P (tree_children e) \<Longrightarrow> P es \<Longrightarrow> P (e # es)"
  shows "P es"
proof (induction es rule: measure_induct_rule [of "size_list size"])
  case (less es)
  show ?case
  proof (cases es)
    case Nil
    with assms(1) show ?thesis by simp
  next
    case (Cons e es')
    have "size_list size (tree_children e) < size_list size es"
      using Cons size_tree_children [of e es] by simp
    moreover have "size_list size es' < size_list size es"
      using Cons by simp
    ultimately show ?thesis
      using less.IH assms(2) Cons by blast
  qed
qed

lemma node_forest_induct [case_names Nil Cons]:
  assumes "P []" and "\<And>n ns. P (children n) \<Longrightarrow> P ns \<Longrightarrow> P (n # ns)"
  shows "P ns"
proof (induction ns rule: measure_induct_rule [of "size_list size"])
  case (less ns)
  show ?case
  proof (cases ns)
    case Nil
    with assms(1) show ?thesis by simp
  next
    case (Cons n ns')
    have "size_list size (children n) < size_list size ns"
      using Cons size_children [of n ns] by simp
    moreover have "size_list size ns' < size_list size ns"
      using Cons by simp
    ultimately show ?thesis
      using less.IH assms(2) Cons by blast
  qed
qed

lemma allElems_Nil: "allElems [] = []"
  by (subst allElems.simps) simp

lemma allElems_Cons: "allElems (e # es) = el e # allElems (tree_children e) @ allElems es"
  by (subst allElems.simps, subst (3) allElems.simps) simp

lemma forEachNode_Nil: "forEachNode f [] = []"
  by (subst forEachNode.simps) simp

lemma forEachNode_Cons:
  "forEachNode f (e # es) = Elem (f (el e)) (forEachNode f (tree_children e)) # forEachNode f es"
  by (subst forEachNode.simps, subst (3) forEachNode.simps) simp

lemma renderTree_Nil: "renderTree [] lv = []"
  by (subst renderTree.simps) simp

lemma renderTree_Cons:
  "renderTree (n # ns) lv =
     Elem \<lparr> data_id = id_node n, data_level = lv, expanded = False,
            selected = False, search_hidden = False, search_match = False \<rparr>
          (renderTree (children n) (lv + 1)) # renderTree ns lv"
  by (subst renderTree.simps, subst (3) renderTree.simps) (simp add: renderTree_Nil)

lemmas dom_simps = allElems_Nil allElems_Cons forEachNode_Nil forEachNode_Cons
  renderTree_Nil renderTree_Cons

lemma allElems_forEachNode: "allElems (forEachNode f es) = map f (allElems es)"
  by (induction es rule: elem_forest_induct) (simp_all add: dom_simps)

lemma forEachNode_comp: "forEachNode f (forEachNode g es) = forEachNode (f \<circ> g) es"
  by (induction es rule: elem_forest_induct) (simp_all add: dom_simps)

lemma ids_renderTree: "map data_id (allElems (renderTree forest lv)) = map id_node (allNodes forest)"
  by (induction forest arbitrary: lv rule: node_forest_induct)
     (simp_all add: dom_simps allNodes_Nil allNodes_Cons)

lemma rendered_ids:
  assumes "rendered forest es"
  shows "map data_id (allElems es) = map id_node (allNodes forest)"
proof -
  have "map data_id (allElems es) = map data_id (map unflag (allElems es))"
    by (simp add: unflag_def)
  also have "\<dots> = map data_id (allElems (forEachNode unflag es))"
    by (simp add: allElems_forEachNode)
  also have "\<dots> = map id_node (allNodes forest)"
    using assms by (simp add: rendered_def ids_renderTree)
  finally show ?thesis .
qed

lemma rendered_renderTree: "rendered forest (renderTree forest 0)"
proof -
  have "forEachNode unflag (renderTree forest lv) = renderTree forest lv" for lv
    by (induction forest arbitrary: lv rule: node_forest_induct)
       (simp_all add: dom_simps unflag_def)
  then show ?thesis by (simp add: rendered_def)
qed

lemma rendered_forEachNode:
  assumes "rendered forest es" and "\<And>e. unflag (f e) = unflag e"
  shows "rendered forest (forEachNode f es)"
proof -
  have "unflag \<circ> f = unflag" using assms(2) by (simp add: fun_eq_iff)
  with assms(1) show ?thesis by (simp add: rendered_def forEachNode_comp)
qed

lemma viewOf_initialize: "viewOf forest (initialize forest)"
  using rendered_renderTree [of forest]
  by (simp add: viewOf_def indexed_initialize) (simp add: initialize_def Let_def)

section \<open>Properties of the search\<close>

lemma addAncestors_chain:
  assumes "uniqueIds forest" and "(a, n) \<in> set (ancestry [] forest)"
  shows "addAncestors (edgesOf (ancestry [] forest)) (id_node n) ms = Some (ms \<union> id_node ` set a)"
  using assms(2)
proof (induction "length a" arbitrary: a n ms)
  case 0
  then have "a = []" by simp
  with parentMap_lookup [OF assms(1) "0.prems"] show ?case
    by (subst addAncestors.simps) simp
next
  case (Suc k)
  then have ne: "a \<noteq> []" by auto
  from ancestry_parent [OF Suc.prems ne]
  have p: "(butlast a, last a) \<in> set (ancestry [] forest)" .
  have "k = length (butlast a)" using Suc.hyps(2) by simp
  from Suc.hyps(1) [OF this p]
  have "addAncestors (edgesOf (ancestry [] forest)) (id_node (last a)) (insert (id_node (last a)) ms)
          = Some (insert (id_node (last a)) ms \<union> id_node ` set (butlast a))" .
  moreover have "insert (id_node (last a)) ms \<union> id_node ` set (butlast a) = ms \<union> id_node ` set a"
    using ne by (cases a rule: rev_cases) auto
  ultimately show ?case
    using parentMap_lookup [OF assms(1) Suc.prems] ne
    by (subst addAncestors.simps) simp
qed

lemma collectMatches_set:
  assumes "uniqueIds forest" and "set xs \<subseteq> set (ancestry [] forest)"
  shows "collectMatches (edgesOf (ancestry [] forest)) t (entriesOf xs) ms
           = Some (ms \<union> matchSet t xs)"
  using assms(2)
proof (induction xs arbitrary: ms)
  case Nil
  then show ?case by (simp add: entriesOf_simps matchSet_def)
next
  case (Cons x xs)
  obtain a n where x: "x = (a, n)" by (cases x)
  have an: "(a, n) \<in> set (ancestry [] forest)" using Cons.prems x by simp
  have IH: "collectMatches (edgesOf (ancestry [] forest)) t (entriesOf xs) ms'
              = Some (ms' \<union> matchSet t xs)" for ms'
    using Cons.IH Cons.prems by simp
  have ms: "matchSet t ((a, n) # xs)
              = (if matchesTerm t n then insert (id_node n) (id_node ` set a) else {}) \<union> matchSet t xs"
    by (auto simp: matchSet_def)
  show ?case
    by (simp add: x entriesOf_simps addAncestors_chain [OF assms(1) an] IH ms Un_assoc)
qed

lemma descendants_ancestry:
  "descendants n = map snd (ancestry anc (children n))"
  using map_snd_ancestry [of "[]" "children n" anc] by (simp add: descendants_def allNodes_def)

lemma descendant_has_ancestor:
  "(b, m) \<in> set (ancestry anc nodes) \<Longrightarrow> d \<in> set (descendants m) \<Longrightarrow>
     \<exists>a. (a, d) \<in> set (ancestry anc nodes) \<and> m \<in> set a"
proof (induction anc nodes rule: ancestry.induct)
  case (1 anc)
  then show ?case by simp
next
  case (2 anc x ns)
  from "2.prems"(1) consider
      (here) "b = anc" "m = x"
    | (kid) "(b, m) \<in> set (ancestry (anc @ [x]) (children x))"
    | (sib) "(b, m) \<in> set (ancestry anc ns)"
    by auto
  then show ?case
  proof cases
    case here
    with "2.prems"(2) obtain a where a: "(a, d) \<in> set (ancestry (anc @ [x]) (children x))"
      by (auto simp: descendants_ancestry [of x "anc @ [x]"])
    from ancestry_prefix [OF a] here have "m \<in> set a" by auto
    with a show ?thesis by auto
  next
    case kid
    from "2.IH"(1) [OF kid "2.prems"(2)] show ?thesis by auto
  next
    case sib
    from "2.IH"(2) [OF sib "2.prems"(2)] show ?thesis by auto
  qed
qed

lemma ancestor_has_descendant:
  "(a, d) \<in> set (ancestry anc nodes) \<Longrightarrow> m \<in> set a \<Longrightarrow> m \<notin> set anc \<Longrightarrow>
     d \<in> set (descendants m)"
proof (induction anc nodes rule: ancestry.induct)
  case (1 anc)
  then show ?case by simp
next
  case (2 anc x ns)
  from "2.prems"(1) consider
      (here) "a = anc" "d = x"
    | (kid) "(a, d) \<in> set (ancestry (anc @ [x]) (children x))"
    | (sib) "(a, d) \<in> set (ancestry anc ns)"
    by auto
  then show ?case
  proof cases
    case here
    with "2.prems"(2,3) show ?thesis by simp
  next
    case kid
    show ?thesis
    proof (cases "m = x")
      case True
      from kid have "d \<in> set (map snd (ancestry (anc @ [x]) (children x)))"
        by force
      with True show ?thesis by (simp add: descendants_ancestry [of x "anc @ [x]"])
    next
      case False
      with "2.prems"(3) have "m \<notin> set (anc @ [x])" by simp
      from "2.IH"(1) [OF kid "2.prems"(2) this] show ?thesis .
    qed
  next
    case sib
    from "2.IH"(2) [OF sib "2.prems"(2,3)] show ?thesis .
  qed
qed

lemma matchSet_visible:
  assumes "uniqueIds forest" and "(b, m) \<in> set (ancestry [] forest)"
  shows "id_node m \<in> matchSet t (ancestry [] forest) \<longleftrightarrow> visibleNode t m"
proof
  assume "id_node m \<in> matchSet t (ancestry [] forest)"
  then obtain a n where an: "(a, n) \<in> set (ancestry [] forest)" "matchesTerm t n"
    and k: "id_node m = id_node n \<or> id_node m \<in> id_node ` set a"
    by (auto simp: matchSet_def)
  from k show "visibleNode t m"
  proof
    assume "id_node m = id_node n"
    with unique_same [OF assms(1) assms(2) an(1)] an(2) show ?thesis
      by (simp add: visibleNode_def)
  next
    assume "id_node m \<in> id_node ` set a"
    then obtain x where x: "x \<in> set a" "id_node m = id_node x" by auto
    from ancestry_ancestor [OF an(1) x(1)] obtain c where "(c, x) \<in> set (ancestry [] forest)" ..
    with unique_same [OF assms(1) assms(2) this] x have "m \<in> set a" by simp
    from ancestor_has_descendant [OF an(1) this] an(2) show ?thesis
      by (auto simp: visibleNode_def)
  qed
next
  assume "visibleNode t m"
  then consider "matchesTerm t m" | d where "d \<in> set (descendants m)" "matchesTerm t d"
    by (auto simp: visibleNode_def)
  then show "id_node m \<in> matchSet t (ancestry [] forest)"
  proof cases
    case 1
    with assms(2) show ?thesis by (force simp: matchSet_def)
  next
    case 2
    from descendant_has_ancestor [OF assms(2) 2(1)] obtain a where
      "(a, d) \<in> set (ancestry [] forest)" "m \<in> set a" by blast
    with 2(2) show ?thesis by (force simp: matchSet_def)
  qed
qed

lemma clearSearch_lambda:
  "(\<lambda>e. e\<lparr>search_hidden := False, search_match := False\<rparr>) = clearSearch"
  by (simp add: fun_eq_iff clearSearch_def)

lemma nth_ancestry:
  assumes "k < length (allNodes forest)"
  shows "\<exists>a. (a, allNodes forest ! k) \<in> set (ancestry [] forest)"
proof -
  have "k < length (ancestry [] forest)" using assms by (simp add: allNodes_def)
  then have "ancestry [] forest ! k \<in> set (ancestry [] forest)" by simp
  moreover have "snd (ancestry [] forest ! k) = allNodes forest ! k"
    using assms by (simp add: allNodes_def)
  ultimately show ?thesis by (metis prod.collapse)
qed

lemma search_unique:
  assumes "uniqueIds forest" and "viewOf forest v" and "trim (toLowerCase term) \<noteq> []"
  shows "search term v =
           Some (Inr (v\<lparr>dom := forEachNode
              (markElem (nodeMap v) (trim (toLowerCase term))
                 (matchSet (trim (toLowerCase term)) (ancestry [] forest)))
              (forEachNode clearSearch (dom v))\<rparr>))"
proof -
  from assms(2) have ix: "indexed forest v" and rd: "rendered forest (dom v)"
    by (simp_all add: viewOf_def)
  note m = indexed_unique [OF assms(1) ix]
  let ?t = "trim (toLowerCase term)"
  have c: "collectMatches (parentMap v) ?t (nodeMap v) {} = Some (matchSet ?t (ancestry [] forest))"
    using collectMatches_set [OF assms(1), of "ancestry [] forest" ?t "{}"] by (simp add: m)
  have "map_of (nodeMap v) (data_id e) \<noteq> None"
    if "e \<in> set (allElems (forEachNode clearSearch (dom v)))" for e
  proof -
    from that obtain e0 where "e0 \<in> set (allElems (dom v))" "e = clearSearch e0"
      by (auto simp: allElems_forEachNode)
    then have "data_id e \<in> set (map data_id (allElems (dom v)))"
      by (auto simp: clearSearch_def)
    then have "data_id e \<in> id_node ` set (allNodes forest)"
      by (simp add: rendered_ids [OF rd])
    then obtain a n where "(a, n) \<in> set (ancestry [] forest)" "data_id e = id_node n"
      by (auto simp: allNodes_def)
    with nodeMap_lookup [OF assms(1), of a n] show ?thesis by (simp add: m)
  qed
  then have ok: "\<not> list_ex (\<lambda>e. data_id e \<in> matchSet ?t (ancestry [] forest)
                      \<and> map_of (nodeMap v) (data_id e) = None)
                   (allElems (forEachNode clearSearch (dom v)))"
    by (auto simp: list_ex_iff)
  show ?thesis
    using assms(3) c ok by (simp add: search_def clearSearch_lambda Let_def)
qed

lemma markElem_node:
  assumes "uniqueIds forest" and "indexed forest v" and "(a, n) \<in> set (ancestry [] forest)"
    and "data_id e = id_node n"
  shows "markElem (nodeMap v) t (matchSet t (ancestry [] forest)) e =
           (if visibleNode t n
            then (if matchesTerm t n then e\<lparr>search_match := True, expanded := True\<rparr> else e)
            else e\<lparr>search_hidden := True\<rparr>)"
proof -
  note m = indexed_unique [OF assms(1,2)]
  have l: "map_of (nodeMap v) (id_node n) = Some n"
    using nodeMap_lookup [OF assms(1,3)] by (simp add: m)
  show ?thesis
    using matchSet_visible [OF assms(1,3), of t] l
    by (simp add: markElem_def assms(4) toggleNode_def)
qed

lemma search_elems:
  assumes "uniqueIds forest" and "viewOf forest v" and "trim (toLowerCase term) \<noteq> []"
    and "search term v = Some (Inr v')" and "k < length (allNodes forest)"
  shows "allElems (dom v') ! k =
           (let t = trim (toLowerCase term); n = allNodes forest ! k;
                e = clearSearch (allElems (dom v) ! k)
            in if visibleNode t n
               then (if matchesTerm t n then e\<lparr>search_match := True, expanded := True\<rparr> else e)
               else e\<lparr>search_hidden := True\<rparr>)"
proof -
  from assms(2) have ix: "indexed forest v" and rd: "rendered forest (dom v)"
    by (simp_all add: viewOf_def)
  let ?t = "trim (toLowerCase term)"
  from search_unique [OF assms(1,2,3)] assms(4)
  have d: "dom v' = forEachNode (markElem (nodeMap v) ?t (matchSet ?t (ancestry [] forest)))
                      (forEachNode clearSearch (dom v))"
    by auto
  have len: "length (allElems (dom v)) = length (allNodes forest)"
    using rendered_ids [OF rd] by (metis length_map)
  from nth_ancestry [OF assms(5)] obtain a where
    a: "(a, allNodes forest ! k) \<in> set (ancestry [] forest)" ..
  have "data_id (allElems (dom v) ! k) = id_node (allNodes forest ! k)"
    using rendered_ids [OF rd] assms(5) len by (metis nth_map)
  then have i: "data_id (clearSearch (allElems (dom v) ! k)) = id_node (allNodes forest ! k)"
    by (simp add: clearSearch_def)
  show ?thesis
    using assms(5) len markElem_node [OF assms(1) ix a i, of ?t]
    by (simp add: d allElems_forEachNode Let_def)
qed

lemma search_rendered:
  assumes "uniqueIds forest" and "viewOf forest v" and "trim (toLowerCase term) \<noteq> []"
  shows "\<exists>v'. search term v = Some (Inr v') \<and> v' = v\<lparr>dom := dom v'\<rparr> \<and> viewOf forest v'
           \<and> length (allElems (dom v')) = length (allNodes forest)
           \<and> length (allElems (dom v)) = length (allNodes forest)"
proof -
  from assms(2) have ix: "indexed forest v" and rd: "rendered forest (dom v)"
    by (simp_all add: viewOf_def)
  let ?t = "trim (toLowerCase term)"
  let ?d = "forEachNode (markElem (nodeMap v) ?t (matchSet ?t (ancestry [] forest)))
              (forEachNode clearSearch (dom v))"
  have u1: "unflag (clearSearch e) = unflag e" for e
    by (simp add: unflag_def clearSearch_def)
  have u2: "unflag (markElem nm t M e) = unflag e" for nm t M e
    by (simp add: unflag_def markElem_def toggleNode_def split: option.splits)
  have r: "rendered forest ?d"
    by (intro rendered_forEachNode rd u1 u2)
  have len: "length (allElems (dom v)) = length (allNodes forest)"
    using rendered_ids [OF rd] by (metis length_map)
  have len': "length (allElems ?d) = length (allNodes forest)"
    using rendered_ids [OF r] by (metis length_map)
  show ?thesis
    using search_unique [OF assms] r ix len len'
    by (simp add: viewOf_def indexed_def)
qed

text \<open>
  C1, as the code has it.  For a forest with unique node ids and labels without
  markup, a viewer of it, and a search term whose lower-cased and trimmed form is not
  empty, \<open>search\<close> returns, changes
  nothing but classes of the tree, and afterwards the element of a node is visible (not
  \<open>search-hidden\<close>) exactly when the display id or the name of the node, lower-cased,
  contains the lower-cased and trimmed term, or those of one of its descendants do.
\<close>

theorem search_visible:
  assumes "uniqueIds forest" and "viewOf forest v" and "trim (toLowerCase term) \<noteq> []"
    and "plainLabels forest"
  shows "\<exists>v'. search term v = Some (Inr v') \<and> v' = v\<lparr>dom := dom v'\<rparr> \<and> viewOf forest v'
           \<and> length (allElems (dom v')) = length (allNodes forest)
           \<and> (\<forall>k<length (allNodes forest).
                 data_id (allElems (dom v') ! k) = id_node (allNodes forest ! k)
                 \<and> (\<not> search_hidden (allElems (dom v') ! k) \<longleftrightarrow>
                      matchesTerm (trim (toLowerCase term)) (allNodes forest ! k)
                      \<or> (\<exists>d\<in>set (descendants (allNodes forest ! k)).
                            matchesTerm (trim (toLowerCase term)) d)))"
proof -
  from search_rendered [OF assms(1-3)] obtain v' where
    v': "search term v = Some (Inr v')" "v' = v\<lparr>dom := dom v'\<rparr>" "viewOf forest v'"
      "length (allElems (dom v')) = length (allNodes forest)"
    by blast
  from v'(3) have rd': "rendered forest (dom v')" by (simp add: viewOf_def)
  have "data_id (allElems (dom v') ! k) = id_node (allNodes forest ! k)
        \<and> (\<not> search_hidden (allElems (dom v') ! k) \<longleftrightarrow>
              matchesTerm (trim (toLowerCase term)) (allNodes forest ! k)
              \<or> (\<exists>d\<in>set (descendants (allNodes forest ! k)).
                    matchesTerm (trim (toLowerCase term)) d))"
    if k: "k < length (allNodes forest)" for k
  proof
    show "data_id (allElems (dom v') ! k) = id_node (allNodes forest ! k)"
      using rendered_ids [OF rd'] k v'(4) by (metis nth_map)
    show "\<not> search_hidden (allElems (dom v') ! k) \<longleftrightarrow>
              matchesTerm (trim (toLowerCase term)) (allNodes forest ! k)
              \<or> (\<exists>d\<in>set (descendants (allNodes forest ! k)).
                    matchesTerm (trim (toLowerCase term)) d)"
      using search_elems [OF assms(1-3) v'(1) k]
      by (simp add: Let_def clearSearch_def visibleNode_def)
  qed
  with v' show ?thesis by blast
qed

text \<open>
  C2, as the code has it.  Under the same conditions, after \<open>search\<close> the element of
  every node that matches directly is expanded, marked as a match and visible; the
  element of every node that does not match directly, also one that is kept visible
  only because a descendant matches, has the expanded state it had before the call and
  is not marked.
\<close>

theorem search_expands:
  assumes "uniqueIds forest" and "viewOf forest v" and "trim (toLowerCase term) \<noteq> []"
    and "plainLabels forest"
  shows "\<exists>v'. search term v = Some (Inr v') \<and> v' = v\<lparr>dom := dom v'\<rparr> \<and> viewOf forest v'
           \<and> length (allElems (dom v')) = length (allNodes forest)
           \<and> length (allElems (dom v)) = length (allNodes forest)
           \<and> (\<forall>k<length (allNodes forest).
                 (matchesTerm (trim (toLowerCase term)) (allNodes forest ! k) \<longrightarrow>
                    expanded (allElems (dom v') ! k) \<and> search_match (allElems (dom v') ! k)
                    \<and> \<not> search_hidden (allElems (dom v') ! k))
                 \<and> (\<not> matchesTerm (trim (toLowerCase term)) (allNodes forest ! k) \<longrightarrow>
                      expanded (allElems (dom v') ! k) = expanded (allElems (dom v) ! k)
                      \<and> \<not> search_match (allElems (dom v') ! k)))"
proof -
  from search_rendered [OF assms(1-3)] obtain v' where
    v': "search term v = Some (Inr v')" "v' = v\<lparr>dom := dom v'\<rparr>" "viewOf forest v'"
      "length (allElems (dom v')) = length (allNodes forest)"
      "length (allElems (dom v)) = length (allNodes forest)"
    by blast
  have "(matchesTerm (trim (toLowerCase term)) (allNodes forest ! k) \<longrightarrow>
           expanded (allElems (dom v') ! k) \<and> search_match (allElems (dom v') ! k)
           \<and> \<not> search_hidden (allElems (dom v') ! k))
        \<and> (\<not> matchesTerm (trim (toLowerCase term)) (allNodes forest ! k) \<longrightarrow>
             expanded (allElems (dom v') ! k) = expanded (allElems (dom v) ! k)
             \<and> \<not> search_match (allElems (dom v') ! k))"
    if k: "k < length (allNodes forest)" for k
    using search_elems [OF assms(1-3) v'(1) k]
    by (simp add: Let_def clearSearch_def visibleNode_def)
  with v' show ?thesis by blast
qed

text \<open>
  C8, as the code has it.  For a viewer of a forest with labels without markup, whatever
  classes its elements have, and a term that is empty after lower-casing and trimming,
  \<open>search\<close> returns, clears \<open>search-hidden\<close> and \<open>search-match\<close> on every element and changes
  nothing else: every element is visible and unmarked, and is expanded exactly when it
  was just before the call (so a node that an earlier search expanded stays expanded).
\<close>

theorem search_empty:
  assumes "trim (toLowerCase term) = []" and "viewOf forest v" and "plainLabels forest"
  shows "search term v = Some (Inr (v\<lparr>dom := forEachNode clearSearch (dom v)\<rparr>))
     \<and> forEachNode unflag (forEachNode clearSearch (dom v)) = forEachNode unflag (dom v)
     \<and> length (allElems (forEachNode clearSearch (dom v))) = length (allElems (dom v))
     \<and> (\<forall>k<length (allElems (dom v)).
          \<not> search_hidden (allElems (forEachNode clearSearch (dom v)) ! k)
          \<and> \<not> search_match (allElems (forEachNode clearSearch (dom v)) ! k)
          \<and> expanded (allElems (forEachNode clearSearch (dom v)) ! k) = expanded (allElems (dom v) ! k)
          \<and> selected (allElems (forEachNode clearSearch (dom v)) ! k) = selected (allElems (dom v) ! k)
          \<and> data_id (allElems (forEachNode clearSearch (dom v)) ! k) = data_id (allElems (dom v) ! k))"
proof -
  have "unflag \<circ> clearSearch = unflag"
    by (simp add: fun_eq_iff unflag_def clearSearch_def)
  then have "forEachNode unflag (forEachNode clearSearch (dom v)) = forEachNode unflag (dom v)"
    by (simp add: forEachNode_comp)
  then show ?thesis
    using assms(1)
    by (simp add: search_def clearSearch_lambda Let_def allElems_forEachNode clearSearch_def)
qed

lemmas eval_defs = search_def initialize_def buildMaps_Nil buildMaps_Cons dom_simps
  trim_def toLowerCase_def lowerChar_def upperLetters_def lowerLetters_def isSpace_def
  addAncestors.simps matchesTerm_def markElem_def toggleNode_def

lemma search_a2:
  "\<exists>v'. search '' A2 '' (initialize forest_a) = Some (Inr v')
       \<and> map (\<lambda>e. (data_id e, expanded e, search_hidden e, search_match e)) (allElems (dom v'))
             = [(''A'', False, False, False), (''A1'', False, True, False),
                (''A1a'', False, True, False), (''A2'', True, False, True)]"
  by (simp add: eval_defs forest_a_defs)

lemma trim_a2: "trim (toLowerCase '' A2 '') = ''a2''"
  by (simp add: eval_defs)

lemma plain_forest_a: "plainLabels forest_a"
  by (simp add: plainLabels_def forest_a_defs allNodes_Nil allNodes_Cons)

theorem search_visible_witness:
  "uniqueIds forest_a \<and> viewOf forest_a (initialize forest_a)
   \<and> trim (toLowerCase '' A2 '') = ''a2'' \<and> plainLabels forest_a
   \<and> (\<exists>v'. search '' A2 '' (initialize forest_a) = Some (Inr v')
          \<and> map (\<lambda>e. (data_id e, search_hidden e)) (allElems (dom v'))
               = [(''A'', False), (''A1'', True), (''A1a'', True), (''A2'', False)])"
proof -
  have ne: "trim (toLowerCase '' A2 '') \<noteq> []" by (simp add: trim_a2)
  from search_visible [OF unique_forest_a viewOf_initialize ne plain_forest_a] search_a2
    unique_forest_a viewOf_initialize [of forest_a] trim_a2 plain_forest_a
  show ?thesis by auto
qed

theorem search_expands_witness:
  "uniqueIds forest_a \<and> viewOf forest_a (initialize forest_a)
   \<and> trim (toLowerCase '' A2 '') = ''a2'' \<and> plainLabels forest_a
   \<and> (\<exists>v'. search '' A2 '' (initialize forest_a) = Some (Inr v')
          \<and> map (\<lambda>e. (data_id e, expanded e)) (allElems (dom v'))
               = [(''A'', False), (''A1'', False), (''A1a'', False), (''A2'', True)])"
proof -
  have ne: "trim (toLowerCase '' A2 '') \<noteq> []" by (simp add: trim_a2)
  from search_expands [OF unique_forest_a viewOf_initialize ne plain_forest_a] search_a2
    unique_forest_a viewOf_initialize [of forest_a] trim_a2 plain_forest_a
  show ?thesis by auto
qed

lemma trim_blank: "trim (toLowerCase ''  '') = []"
  by (simp add: eval_defs)

theorem search_empty_witness:
  "trim (toLowerCase ''  '') = [] \<and> viewOf forest_a (initialize forest_a) \<and> plainLabels forest_a
   \<and> search ''  '' (initialize forest_a)
       = Some (Inr ((initialize forest_a)\<lparr>dom := forEachNode clearSearch (dom (initialize forest_a))\<rparr>))"
  using search_empty [OF trim_blank viewOf_initialize [of forest_a] plain_forest_a]
    trim_blank viewOf_initialize [of forest_a] plain_forest_a
  by simp

text \<open>
  The claim C1 as it is worded fails twice.  The term of one space is not empty, no
  display id or name contains a space, and every node is visible after the search.  In
  \<open>forest_dup\<close> the first node with id \<open>X\<close> has the name \<open>foo\<close>, but \<open>nodeMap\<close> holds the second
  one for that id, so searching \<open>foo\<close> hides every node.
\<close>

theorem search_visible_counterexample:
  "shown (search '' '' (initialize forest_a))
     = Some (Inr (None, [(''A'', False, False, False, False), (''A1'', False, False, False, False),
                         (''A1a'', False, False, False, False), (''A2'', False, False, False, False)]))
   \<and> map (matchesTerm (toLowerCase '' '')) (allNodes forest_a) = [False, False, False, False]
   \<and> shown (search ''foo'' (initialize forest_dup))
     = Some (Inr (None, [(''A'', False, False, True, False), (''X'', False, False, True, False),
                         (''B'', False, False, True, False), (''X'', False, False, True, False)]))
   \<and> map (matchesTerm (toLowerCase ''foo'')) (allNodes forest_dup) = [False, True, False, False]"
  by (simp add: shown_def eval_defs forest_a_defs forest_dup_def allNodes_Nil allNodes_Cons)

text \<open>
  The claim C2 as it is worded fails: after searching \<open>a2\<close> in the collapsed tree, \<open>A\<close> does
  not match and is visible only because its descendant \<open>A2\<close> matches, and \<open>A\<close> is still
  collapsed.
\<close>

theorem search_expands_counterexample:
  "shown (search ''a2'' (initialize forest_a))
     = Some (Inr (None, [(''A'', False, False, False, False), (''A1'', False, False, True, False),
                         (''A1a'', False, False, True, False), (''A2'', True, False, False, True)]))
   \<and> map (matchesTerm (toLowerCase ''a2'')) (allNodes forest_a) = [False, False, False, True]
   \<and> descendants (allNodes forest_a ! 0) = [node_A1, node_A1a, node_A2]"
  by (simp add: shown_def eval_defs forest_a_defs allNodes_Nil allNodes_Cons descendants_def)

text \<open>
  The claim C8 as it is worded fails: every node is collapsed at the start, searching
  \<open>a2\<close> expands \<open>A2\<close>, and after the search with the empty term \<open>A2\<close> is still expanded.
\<close>

theorem search_empty_counterexample:
  "shown (Some (Inr (initialize forest_a)))
     = Some (Inr (None, [(''A'', False, False, False, False), (''A1'', False, False, False, False),
                         (''A1a'', False, False, False, False), (''A2'', False, False, False, False)]))
   \<and> shown (andThen (search ''a2'' (initialize forest_a)) (search ''''))
     = Some (Inr (None, [(''A'', False, False, False, False), (''A1'', False, False, False, False),
                         (''A1a'', False, False, False, False), (''A2'', True, False, False, False)]))"
  by (simp add: shown_def andThen_def eval_defs forest_a_defs)

section \<open>Properties of the selection\<close>

lemma length_forEachNode: "length (forEachNode f es) = length es"
  by (subst forEachNode.simps) simp

lemma nth_forEachNode:
  "i < length es \<Longrightarrow>
     forEachNode f es ! i = Elem (f (el (es ! i))) (forEachNode f (tree_children (es ! i)))"
  by (subst forEachNode.simps) simp

lemma elemAt_forEachNode: "elemAt q (forEachNode f es) = map_option f (elemAt q es)"
  by (induction q es rule: elemAt.induct)
     (simp_all add: length_forEachNode nth_forEachNode)

lemma elemAt_updateAt:
  "elemAt q (updateAt p f es) = (if q = p then map_option f (elemAt q es) else elemAt q es)"
proof (induction p f es arbitrary: q rule: updateAt.induct)
  case (1 f es)
  then show ?case by simp
next
  case (2 i f es)
  show ?case
    by (cases q; cases "tl q") (auto simp: nth_list_update)
next
  case (3 i j p f es)
  show ?case
    using "3.IH" by (cases q; cases "tl q") (auto simp: nth_list_update)
qed

lemma strict_prefix_butlast:
  "p \<noteq> [] \<Longrightarrow> strict_prefix q p \<longleftrightarrow> q = butlast p \<or> strict_prefix q (butlast p)"
  by (cases p rule: rev_cases) (auto simp: strict_prefix_def prefix_snoc)

lemma elemAt_expandParents:
  "elemAt q (expandParents p es) =
     map_option (\<lambda>e. if strict_prefix q p then e\<lparr>expanded := True\<rparr> else e) (elemAt q es)"
proof (induction p es arbitrary: q rule: expandParents.induct)
  case (1 p es)
  show ?case
  proof (cases "length p \<le> 1")
    case True
    have "\<not> strict_prefix q p" if "q \<noteq> []"
    proof
      assume "strict_prefix q p"
      then have "length q < length p" by (auto simp: strict_prefix_def prefix_def)
      with True that show False by (cases q) auto
    qed
    moreover have "elemAt [] es = None" by simp
    ultimately have "map_option (\<lambda>e. if strict_prefix q p then e\<lparr>expanded := True\<rparr> else e) (elemAt q es)
                       = elemAt q es"
      by (cases "q = []") (auto simp: option.map_ident)
    with True show ?thesis by (subst expandParents.simps) simp
  next
    case False
    then have ne: "p \<noteq> []" by auto
    have nb: "\<not> strict_prefix (butlast p) (butlast p)" by simp
    from False have "expandParents p es
            = expandParents (butlast p) (updateAt (butlast p) (toggleNode (Some True)) es)"
      by (subst expandParents.simps) simp
    then show ?thesis
      using "1.IH" [OF False, of q] strict_prefix_butlast [OF ne, of q] nb
      by (cases "elemAt q es") (auto simp: elemAt_updateAt toggleNode_def)
  qed
qed

lemma findFrom_Some:
  "findFrom test i es = Some p \<Longrightarrow>
     \<exists>j q e. p = (i + j) # q \<and> elemAt (j # q) es = Some e \<and> test (data_id e)"
proof (induction test i es arbitrary: p rule: findFrom.induct)
  case (1 test i)
  then show ?case by simp
next
  case (2 test i x cs es)
  show ?case
  proof (cases "test (data_id x)")
    case True
    with "2.prems" have "p = (i + 0) # []" by simp
    moreover have "elemAt (0 # []) (Elem x cs # es) = Some x" by simp
    ultimately show ?thesis using True by blast
  next
    case False
    show ?thesis
    proof (cases "findFrom test 0 cs")
      case (Some r)
      with False "2.prems" have p: "p = i # r" by simp
      from "2.IH"(1) [OF False Some] obtain j q e where
        r: "r = j # q" "elemAt (j # q) cs = Some e" "test (data_id e)" by auto
      have "elemAt (0 # j # q) (Elem x cs # es) = Some e" using r(2) by simp
      with p r show ?thesis by (intro exI [of _ 0] exI [of _ "j # q"] exI [of _ e]) simp
    next
      case None
      with False "2.prems" have "findFrom test (Suc i) es = Some p" by simp
      from "2.IH"(2) [OF False None this] obtain j q e where
        r: "p = (Suc i + j) # q" "elemAt (j # q) es = Some e" "test (data_id e)" by auto
      have "elemAt (Suc j # q) (Elem x cs # es) = Some e"
        using r(2) by (cases q) (auto split: if_splits)
      with r show ?thesis by (intro exI [of _ "Suc j"] exI [of _ q] exI [of _ e]) simp
    qed
  qed
qed

lemma findFrom_None:
  "findFrom test i es = None \<longleftrightarrow> (\<forall>e\<in>set (allElems es). \<not> test (data_id e))"
proof (induction test i es rule: findFrom.induct)
  case (1 test i)
  then show ?case by (simp add: allElems_Nil)
next
  case (2 test i x cs es)
  then show ?case
    by (auto simp: allElems_Cons split: option.splits)
qed

lemma allElems_append: "allElems (xs @ ys) = allElems xs @ allElems ys"
  by (induction xs) (simp_all add: allElems_Nil allElems_Cons)

lemma allElems_updateAt:
  "elemAt p es = Some e \<Longrightarrow>
     \<exists>xs ys. allElems es = xs @ e # ys \<and> (\<forall>f. allElems (updateAt p f es) = xs @ f e # ys)"
proof (induction p es arbitrary: e rule: elemAt.induct)
  case (1 es)
  then show ?case by simp
next
  case (2 i es)
  then have i: "i < length es" and e: "e = el (es ! i)" by (auto split: if_splits)
  have es: "es = take i es @ es ! i # drop (Suc i) es"
    using i by (simp add: id_take_nth_drop)
  have up: "es[i := y] = take i es @ y # drop (Suc i) es" for y
    using i by (simp add: upd_conv_take_nth_drop)
  let ?xs = "allElems (take i es)"
  let ?ys = "allElems (tree_children (es ! i)) @ allElems (drop (Suc i) es)"
  have "allElems es = ?xs @ e # ?ys"
    by (subst es) (simp add: allElems_append allElems_Cons e)
  moreover have "allElems (updateAt [i] f es) = ?xs @ f e # ?ys" for f
    using i by (simp add: up allElems_append allElems_Cons e)
  ultimately show ?case by blast
next
  case (3 i j p es)
  then have i: "i < length es" and k: "elemAt (j # p) (tree_children (es ! i)) = Some e"
    by (auto split: if_splits)
  from "3.IH" [OF i k] obtain xs ys where
    kids: "allElems (tree_children (es ! i)) = xs @ e # ys"
      "\<And>f. allElems (updateAt (j # p) f (tree_children (es ! i))) = xs @ f e # ys"
    by blast
  have es: "es = take i es @ es ! i # drop (Suc i) es"
    using i by (simp add: id_take_nth_drop)
  have up: "es[i := y] = take i es @ y # drop (Suc i) es" for y
    using i by (simp add: upd_conv_take_nth_drop)
  let ?xs = "allElems (take i es) @ el (es ! i) # xs"
  let ?ys = "ys @ allElems (drop (Suc i) es)"
  have "allElems es = ?xs @ e # ?ys"
    by (subst es) (simp add: allElems_append allElems_Cons kids(1))
  moreover have "allElems (updateAt (i # j # p) f es) = ?xs @ f e # ?ys" for f
    using i by (simp add: up allElems_append allElems_Cons kids(2))
  ultimately show ?case by blast
qed

lemma map_allElems_updateAt:
  assumes "\<And>e. h (f e) = h e"
  shows "map h (allElems (updateAt p f es)) = map h (allElems es)"
proof (cases "elemAt p es")
  case None
  have "updateAt p f es = es" if "elemAt p es = None" for es
    using that
  proof (induction p es rule: elemAt.induct)
    case (3 i j p es)
    then show ?case by (auto simp: list_update_same_conv split: if_splits)
  qed (auto split: if_splits)
  with None show ?thesis by simp
next
  case (Some e)
  from allElems_updateAt [OF Some] obtain xs ys where
    "allElems es = xs @ e # ys" "allElems (updateAt p f es) = xs @ f e # ys" by blast
  with assms show ?thesis by simp
qed

lemma map_allElems_expandParents:
  assumes "\<And>e b. h (e\<lparr>expanded := b\<rparr>) = h e"
  shows "map h (allElems (expandParents p es)) = map h (allElems es)"
proof (induction p es rule: expandParents.induct)
  case (1 p es)
  show ?case
  proof (cases "length p \<le> 1")
    case True
    then show ?thesis by (subst expandParents.simps) simp
  next
    case False
    have "map h (allElems (updateAt (butlast p) (toggleNode (Some True)) es)) = map h (allElems es)"
      by (rule map_allElems_updateAt) (simp add: toggleNode_def assms)
    with "1.IH" [OF False] False show ?thesis
      by (subst expandParents.simps) simp
  qed
qed

lemma unselect_lambda: "(\<lambda>e. e\<lparr>selected := False\<rparr>) = unselect"
  by (simp add: fun_eq_iff unselect_def)

lemma forEachNode_updateAt:
  "(\<And>e. g (f e) = g e) \<Longrightarrow> forEachNode g (updateAt p f es) = forEachNode g es"
proof (induction p f es rule: updateAt.induct)
  case (1 f es)
  then show ?case by simp
next
  case (2 i f es)
  show ?case
    by (subst forEachNode.simps, subst (2) forEachNode.simps)
       (simp add: "2.prems" map_update list_update_same_conv)
next
  case (3 i j p f es)
  show ?case
    by (subst forEachNode.simps, subst (2) forEachNode.simps)
       (simp add: "3.IH" [OF _ "3.prems"] map_update list_update_same_conv)
qed

lemma forEachNode_expandParents:
  assumes "\<And>e b. g (e\<lparr>expanded := b\<rparr>) = g e"
  shows "forEachNode g (expandParents p es) = forEachNode g es"
proof (induction p es rule: expandParents.induct)
  case (1 p es)
  show ?case
  proof (cases "length p \<le> 1")
    case True
    then show ?thesis by (subst expandParents.simps) simp
  next
    case False
    have "forEachNode g (updateAt (butlast p) (toggleNode (Some True)) es) = forEachNode g es"
      by (rule forEachNode_updateAt) (simp add: toggleNode_def assms)
    with "1.IH" [OF False] False show ?thesis
      by (subst expandParents.simps) simp
  qed
qed

lemma nodeMap_keys:
  assumes "indexed forest v"
  shows "fst ` set (nodeMap v) = id_node ` set (allNodes forest)"
proof -
  have "nodeMap v = putAll (entriesOf (ancestry [] forest)) []"
    using assms by (simp add: indexed_def buildMaps_putAll [of None "[]"])
  then show ?thesis
    by (force simp: putAll_keys entriesOf_def allNodes_def)
qed

lemma elemAt_marked:
  "elemAt q (expandParents p (updateAt p (\<lambda>e. e\<lparr>selected := True\<rparr>) (forEachNode unselect es)))
     = map_option (selectedAt p q) (elemAt q es)"
proof (cases "elemAt q es")
  case None
  then show ?thesis
    by (auto simp: elemAt_expandParents elemAt_updateAt elemAt_forEachNode)
next
  case (Some e)
  then show ?thesis
    by (cases e)
       (auto simp: elemAt_expandParents elemAt_updateAt elemAt_forEachNode selectedAt_def
          unselect_def)
qed

lemma selected_ids:
  "map data_id (filter selected xs) = map snd (filter fst (map (\<lambda>e. (selected e, data_id e)) xs))"
  by (induction xs) auto

lemma one_selected:
  assumes "elemAt p es = Some e"
  shows "map data_id (filter selected
           (allElems (expandParents p (updateAt p (\<lambda>e. e\<lparr>selected := True\<rparr>) (forEachNode unselect es)))))
         = [data_id e]"
proof -
  let ?c = "forEachNode unselect es"
  let ?h = "\<lambda>e. (selected e, data_id e)"
  have c: "elemAt p ?c = Some (unselect e)"
    using assms by (simp add: elemAt_forEachNode)
  from allElems_updateAt [OF c] obtain xs ys where
    xy: "allElems ?c = xs @ unselect e # ys"
      "allElems (updateAt p (\<lambda>e. e\<lparr>selected := True\<rparr>) ?c) = xs @ (unselect e)\<lparr>selected := True\<rparr> # ys"
    by blast
  have "\<forall>x\<in>set (allElems ?c). \<not> selected x"
    by (auto simp: allElems_forEachNode unselect_def)
  with xy(1) have no: "\<forall>x\<in>set xs. \<not> selected x" "\<forall>x\<in>set ys. \<not> selected x"
    by auto
  have "map ?h (allElems (expandParents p (updateAt p (\<lambda>e. e\<lparr>selected := True\<rparr>) ?c)))
          = map ?h (allElems (updateAt p (\<lambda>e. e\<lparr>selected := True\<rparr>) ?c))"
    by (rule map_allElems_expandParents) simp
  also have "\<dots> = map ?h xs @ (True, data_id e) # map ?h ys"
    by (simp add: xy(2) unselect_def)
  finally have "filter fst (map ?h (allElems (expandParents p (updateAt p (\<lambda>e. e\<lparr>selected := True\<rparr>) ?c))))
                  = [(True, data_id e)]"
    using no by (simp add: filter_map comp_def filter_empty_conv)
  then show ?thesis
    by (simp add: selected_ids)
qed

text \<open>
  C4, as the code has it.  For a forest with unique node ids and labels without
  markup, a viewer of it, an id that \<open>nodeMap\<close> has, and a selector engine that accepts
  the selector made of that id and tests \<open>data-id\<close> for equality with it,
  \<open>selectNode\<close> returns.  Afterwards the maps are as before, the id is recorded as the
  selection and the detail pane shows its node; the tree is the same up to classes;
  exactly one element is marked selected, the one that \<open>querySelector\<close> found, which
  has that id; every element above it (at a proper prefix of its address) is expanded,
  and every other element is expanded exactly when it was before.
\<close>

theorem selectNode_present:
  assumes "uniqueIds forest" and "viewOf forest v"
    and "map_of (nodeMap v) nodeId = Some n" and "css nodeId = Some (\<lambda>d. d = nodeId)"
    and "plainLabels forest"
  shows "\<exists>v' p anc.
           selectNode css nodeId v = Some (Inr v')
           \<and> (anc, n) \<in> set (ancestry [] forest) \<and> id_node n = nodeId
           \<and> v' = v\<lparr>dom := dom v', selectedNode := Some nodeId,
                     detailView := Some (detailOf nodeId n (map id_node (anc @ [n])) (anc @ [n]))\<rparr>
           \<and> viewOf forest v'
           \<and> map_option data_id (elemAt p (dom v)) = Some nodeId
           \<and> (\<forall>q. elemAt q (dom v') =
                 map_option (\<lambda>e. e\<lparr>selected := (q = p), expanded := (expanded e \<or> strict_prefix q p)\<rparr>)
                   (elemAt q (dom v)))
           \<and> map data_id (filter selected (allElems (dom v'))) = [nodeId]"
proof -
  from assms(2) have ix: "indexed forest v" and rd: "rendered forest (dom v)"
    by (simp_all add: viewOf_def)
  note m = indexed_unique [OF assms(1) ix]
  from map_of_SomeD [OF assms(3)] obtain anc where
    an: "(anc, n) \<in> set (ancestry [] forest)" and idn: "id_node n = nodeId"
    by (auto simp: m entriesOf_def)
  let ?c = "forEachNode unselect (dom v)"
  have "nodeId \<in> set (map data_id (allElems (dom v)))"
    using an idn by (force simp: rendered_ids [OF rd] allNodes_def)
  then have "\<exists>e\<in>set (allElems ?c). data_id e = nodeId"
    by (auto simp: allElems_forEachNode unselect_def)
  then have "findFrom (\<lambda>d. d = nodeId) 0 ?c \<noteq> None"
    by (simp add: findFrom_None)
  then obtain p where p: "findFrom (\<lambda>d. d = nodeId) 0 ?c = Some p" by auto
  from findFrom_Some [OF p] obtain e0 where "elemAt p ?c = Some e0" "data_id e0 = nodeId"
    by auto
  then obtain e1 where e1: "elemAt p (dom v) = Some e1" "data_id e1 = nodeId"
    by (auto simp: elemAt_forEachNode unselect_def)
  let ?m = "expandParents p (updateAt p (\<lambda>e. e\<lparr>selected := True\<rparr>) ?c)"
  let ?v1 = "v\<lparr>dom := ?m, selectedNode := Some nodeId\<rparr>"
  have ix1: "indexed forest ?v1" using ix by (simp add: indexed_def)
  have sd: "showDetail nodeId ?v1
           = Some (Inr (?v1\<lparr>detailView :=
                Some (detailOf nodeId n (map id_node (anc @ [n])) (anc @ [n]))\<rparr>))"
    using showDetail_node [OF assms(1) ix1 an] by (simp add: idn)
  let ?v' = "?v1\<lparr>detailView := Some (detailOf nodeId n (map id_node (anc @ [n])) (anc @ [n]))\<rparr>"
  have sel: "selectNode css nodeId v = Some (Inr ?v')"
    using p sd by (simp add: selectNode_def querySelector_def assms(4) unselect_lambda Let_def)
  have u: "forEachNode unflag ?m = forEachNode unflag (dom v)"
  proof -
    have "forEachNode unflag ?m = forEachNode unflag (updateAt p (\<lambda>e. e\<lparr>selected := True\<rparr>) ?c)"
      by (rule forEachNode_expandParents) (simp add: unflag_def)
    also have "\<dots> = forEachNode unflag ?c"
      by (rule forEachNode_updateAt) (simp add: unflag_def)
    also have "\<dots> = forEachNode unflag (dom v)"
    proof -
      have "unflag \<circ> unselect = unflag"
        by (simp add: fun_eq_iff unflag_def unselect_def)
      then show ?thesis by (simp add: forEachNode_comp)
    qed
    finally show ?thesis .
  qed
  have vo: "viewOf forest ?v'"
    using ix rd u by (simp add: viewOf_def indexed_def rendered_def)
  have ea: "\<forall>q. elemAt q (dom ?v') =
                 map_option (\<lambda>e. e\<lparr>selected := (q = p), expanded := (expanded e \<or> strict_prefix q p)\<rparr>)
                   (elemAt q (dom v))"
    using elemAt_marked [of _ p "dom v"] by (simp add: selectedAt_def [abs_def])
  have os: "map data_id (filter selected (allElems (dom ?v'))) = [nodeId]"
    using one_selected [OF e1(1)] e1(2) by simp
  have eq: "?v' = v\<lparr>dom := dom ?v', selectedNode := Some nodeId,
                     detailView := Some (detailOf nodeId n (map id_node (anc @ [n])) (anc @ [n]))\<rparr>"
    by simp
  have dp: "map_option data_id (elemAt p (dom v)) = Some nodeId"
    using e1 by simp
  show ?thesis
    apply (rule exI [of _ ?v'], rule exI [of _ p], rule exI [of _ anc])
    apply (intro conjI)
    apply (rule sel, rule an, rule idn, rule eq, rule vo, rule dp, rule ea, rule os)
    done
qed

text \<open>
  C3, as the code has it.  For a viewer of a forest with labels without markup, an id
  that \<open>nodeMap\<close> does not have, and a selector engine that accepts the selector made of
  that id and tests \<open>data-id\<close> for equality with it, \<open>selectNode\<close> returns
  without an error and leaves the maps, the detail pane and every class but \<open>selected\<close>
  as they are; it removes \<open>selected\<close> from every element and records the id as the
  selection.
\<close>

theorem selectNode_absent:
  assumes "viewOf forest v" and "map_of (nodeMap v) nodeId = None"
    and "css nodeId = Some (\<lambda>d. d = nodeId)" and "plainLabels forest"
  shows "selectNode css nodeId v
           = Some (Inr (v\<lparr>dom := forEachNode unselect (dom v), selectedNode := Some nodeId\<rparr>))
     \<and> forEachNode unflag (forEachNode unselect (dom v)) = forEachNode unflag (dom v)
     \<and> length (allElems (forEachNode unselect (dom v))) = length (allElems (dom v))
     \<and> (\<forall>k<length (allElems (dom v)).
          \<not> selected (allElems (forEachNode unselect (dom v)) ! k)
          \<and> expanded (allElems (forEachNode unselect (dom v)) ! k) = expanded (allElems (dom v) ! k)
          \<and> search_hidden (allElems (forEachNode unselect (dom v)) ! k) = search_hidden (allElems (dom v) ! k)
          \<and> search_match (allElems (forEachNode unselect (dom v)) ! k) = search_match (allElems (dom v) ! k)
          \<and> data_id (allElems (forEachNode unselect (dom v)) ! k) = data_id (allElems (dom v) ! k))"
proof -
  from assms(1) have ix: "indexed forest v" and rd: "rendered forest (dom v)"
    by (simp_all add: viewOf_def)
  let ?c = "forEachNode unselect (dom v)"
  have "nodeId \<notin> fst ` set (nodeMap v)"
    using assms(2) by (simp add: map_of_eq_None_iff)
  then have "nodeId \<notin> set (map data_id (allElems (dom v)))"
    by (simp add: nodeMap_keys [OF ix] rendered_ids [OF rd])
  then have "\<forall>e\<in>set (allElems ?c). data_id e \<noteq> nodeId"
    by (auto simp: allElems_forEachNode unselect_def)
  then have f: "findFrom (\<lambda>d. d = nodeId) 0 ?c = None"
    by (simp add: findFrom_None)
  have sel: "selectNode css nodeId v = Some (Inr (v\<lparr>dom := ?c, selectedNode := Some nodeId\<rparr>))"
    using f assms(2)
    by (simp add: selectNode_def querySelector_def assms(3) unselect_lambda Let_def showDetail_def)
  have "unflag \<circ> unselect = unflag"
    by (simp add: fun_eq_iff unflag_def unselect_def)
  then have u: "forEachNode unflag ?c = forEachNode unflag (dom v)"
    by (simp add: forEachNode_comp)
  from sel u show ?thesis
    by (simp add: allElems_forEachNode unselect_def)
qed

lemmas select_defs = selectNode_def querySelector_def plainEngine_def showDetail_def
  getPath_def getPathLoop.simps expandParents.simps

lemma nodeMap_a:
  "map_of (nodeMap (initialize forest_a)) ''A1a'' = Some node_A1a"
  by (simp add: eval_defs forest_a_defs)

lemma plain_A1a: "plainEngine ''A1a'' = Some (\<lambda>d. d = ''A1a'')"
  by (simp add: plainEngine_def)

lemma select_A1a:
  "shown (selectNode plainEngine ''A1a'' (initialize forest_a))
     = Some (Inr (Some ''A1a'', [(''A'', True, False, False, False), (''A1'', True, False, False, False),
                                  (''A1a'', False, True, False, False), (''A2'', False, False, False, False)]))"
  by (simp add: shown_def select_defs eval_defs forest_a_defs)

theorem selectNode_present_witness:
  "uniqueIds forest_a \<and> viewOf forest_a (initialize forest_a)
   \<and> map_of (nodeMap (initialize forest_a)) ''A1a'' = Some node_A1a
   \<and> plainEngine ''A1a'' = Some (\<lambda>d. d = ''A1a'') \<and> plainLabels forest_a
   \<and> shown (selectNode plainEngine ''A1a'' (initialize forest_a))
     = Some (Inr (Some ''A1a'', [(''A'', True, False, False, False), (''A1'', True, False, False, False),
                                  (''A1a'', False, True, False, False), (''A2'', False, False, False, False)]))"
  using selectNode_present [of forest_a "initialize forest_a" "''A1a''" node_A1a plainEngine,
      OF unique_forest_a viewOf_initialize nodeMap_a plain_A1a plain_forest_a]
    unique_forest_a viewOf_initialize [of forest_a] nodeMap_a plain_A1a plain_forest_a select_A1a
  by simp

lemma nodeMap_zzz: "map_of (nodeMap (initialize forest_a)) ''zzz'' = None"
  by (simp add: eval_defs forest_a_defs)

lemma plain_zzz: "plainEngine ''zzz'' = Some (\<lambda>d. d = ''zzz'')"
  by (simp add: plainEngine_def)

theorem selectNode_absent_witness:
  "viewOf forest_a (initialize forest_a)
   \<and> map_of (nodeMap (initialize forest_a)) ''zzz'' = None
   \<and> plainEngine ''zzz'' = Some (\<lambda>d. d = ''zzz'') \<and> plainLabels forest_a
   \<and> selectNode plainEngine ''zzz'' (initialize forest_a)
       = Some (Inr ((initialize forest_a)\<lparr>dom := forEachNode unselect (dom (initialize forest_a)),
                                            selectedNode := Some ''zzz''\<rparr>))"
  using selectNode_absent [of forest_a "initialize forest_a" "''zzz''" plainEngine,
      OF viewOf_initialize nodeMap_zzz plain_zzz plain_forest_a]
    viewOf_initialize [of forest_a] nodeMap_zzz plain_zzz plain_forest_a
  by simp

text \<open>
  The claim C3 as it is worded fails: with \<open>A\<close> selected, selecting the unknown id \<open>zzz\<close>
  leaves no element marked selected and records \<open>zzz\<close> as the selection.
\<close>

theorem selectNode_absent_counterexample:
  "map_of (nodeMap (initialize forest_a)) ''zzz'' = None
   \<and> shown (selectNode plainEngine ''A'' (initialize forest_a))
     = Some (Inr (Some ''A'', [(''A'', False, True, False, False), (''A1'', False, False, False, False),
                               (''A1a'', False, False, False, False), (''A2'', False, False, False, False)]))
   \<and> shown (andThen (selectNode plainEngine ''A'' (initialize forest_a)) (selectNode plainEngine ''zzz''))
     = Some (Inr (Some ''zzz'', [(''A'', False, False, False, False), (''A1'', False, False, False, False),
                                 (''A1a'', False, False, False, False), (''A2'', False, False, False, False)]))"
  by (simp add: shown_def andThen_def select_defs eval_defs forest_a_defs)

lemma cycle_nodeMap:
  "map_of (nodeMap (initialize forest_cycle)) ''X'' = Some (Node ''X'' ''X'' ''x2'' (Str ''d'') [])"
  by (simp add: eval_defs forest_cycle_def)

text \<open>
  The claim C4 as it is worded fails: in \<open>forest_cycle\<close> the id \<open>X\<close> is in \<open>nodeMap\<close>, the
  parent map sends \<open>X\<close> to \<open>B\<close> and \<open>B\<close> to \<open>X\<close>, and \<open>selectNode\<close> does not return, because
  \<open>getPath\<close> in \<open>showDetail\<close> does not.
\<close>

theorem selectNode_present_counterexample:
  "map_of (nodeMap (initialize forest_cycle)) ''X'' = Some (Node ''X'' ''X'' ''x2'' (Str ''d'') [])
   \<and> plainEngine ''X'' = Some (\<lambda>d. d = ''X'')
   \<and> selectNode plainEngine ''X'' (initialize forest_cycle) = None"
proof -
  have "showDetail ''X'' w = None"
    if "nodeMap w = nodeMap (initialize forest_cycle)"
       "parentMap w = parentMap (initialize forest_cycle)" for w
    using that cycle_nodeMap by (simp add: showDetail_def cycle_parentMap getPath_cycle)
  then have "selectNode plainEngine ''X'' (initialize forest_cycle) = None"
    by (simp add: selectNode_def querySelector_def plainEngine_def Let_def split: option.splits)
  then show ?thesis
    using cycle_nodeMap by (simp add: plainEngine_def)
qed

end
